theory Spec2Isabelle
  imports Main "HOL-Library.Sublist"
begin

section \<open>Text, files and console output\<close>

text \<open>
  Both scripts read a template with \<^verbatim>\<open>open(path, 'r', encoding='utf-8')\<close> and work on
  the resulting Python \<^verbatim>\<open>str\<close>, a sequence of Unicode code points. A text is therefore a
  list of code points, each a natural number; \<open>str\<close> turns an ASCII literal into such a
  list. The substring test \<^verbatim>\<open>a in b\<close> of Python is \<open>sublist a b\<close>.
\<close>

type_synonym str = "nat list"

definition str :: "string \<Rightarrow> str" where
  "str s = map of_char s"

text \<open>
  A file of the template tree holds the text that \<^verbatim>\<open>f.read()\<close> returns (\<open>None\<close> when opening
  or decoding it raises) and a flag telling whether it can be opened for writing. The file
  system maps paths to files; a path without a file cannot be opened for reading.
\<close>

record file_entry =
  contents :: "str option"
  writable :: bool

type_synonym path = str
type_synonym filesystem = "path \<rightharpoonup> file_entry"

definition read_text :: "filesystem \<Rightarrow> path \<Rightarrow> str option" where
  "read_text fs p = (case fs p of None \<Rightarrow> None | Some f \<Rightarrow> contents f)"

definition write_text :: "filesystem \<Rightarrow> path \<Rightarrow> str \<Rightarrow> filesystem option" where
  "write_text fs p s =
     (case fs p of
        None \<Rightarrow> Some (fs(p \<mapsto> \<lparr>contents = Some s, writable = True\<rparr>))
      | Some f \<Rightarrow> if writable f then Some (fs(p \<mapsto> f\<lparr>contents := Some s\<rparr>)) else None)"

text \<open>
  The lines the scripts print, one constructor per \<^verbatim>\<open>print\<close> call that reports on a file.
  A message that names a file carries the path given to the function (the scripts print
  it with the project prefix removed).
\<close>

datatype msg =
    ErrorLeyendo path
  | Omitido path
  | Procesando path
  | CssAgregado
  | JsAgregado
  | ArchivoGuardado
  | NoSePudoModificar
  | ErrorMsg
  | FormatoOK path
  | Arreglando path
  | FormatoCorregido

section \<open>Regular expressions\<close>

text \<open>
  The patterns of the scripts are matched as Python's backtracking matcher does. A matcher
  takes the rest of the pattern as a continuation \<open>k\<close> and the text still to be read; it
  returns what the continuation returns on the first way of matching that lets the
  continuation succeed, trying the alternatives in the order of the \<^verbatim>\<open>re\<close> module (greedy
  repetitions longest first, lazy ones shortest first).
\<close>

type_synonym 'a cont = "str \<Rightarrow> 'a option"

text \<open>The class \<^verbatim>\<open>\s\<close> of a \<^verbatim>\<open>str\<close> pattern: the Unicode white space.\<close>

definition is_space :: "nat \<Rightarrow> bool" where
  "is_space c \<longleftrightarrow>
     (9 \<le> c \<and> c \<le> 13) \<or> (28 \<le> c \<and> c \<le> 32) \<or> c = 133 \<or> c = 160 \<or> c = 5760 \<or>
     (8192 \<le> c \<and> c \<le> 8202) \<or> c = 8232 \<or> c = 8233 \<or> c = 8239 \<or> c = 8287 \<or> c = 12288"

text \<open>A literal, matched exactly.\<close>

definition lit :: "str \<Rightarrow> 'a cont \<Rightarrow> 'a cont" where
  "lit p k s = (if prefix p s then k (drop (length p) s) else None)"

text \<open>\<^verbatim>\<open>\s*\<close>: greedy, giving characters back one at a time when the rest fails.\<close>

fun ws_star :: "'a cont \<Rightarrow> 'a cont" where
  "ws_star k [] = k []"
| "ws_star k (c # cs) =
     (if is_space c
      then (case ws_star k cs of Some r \<Rightarrow> Some r | None \<Rightarrow> k (c # cs))
      else k (c # cs))"

text \<open>\<^verbatim>\<open>x?\<close> for a literal \<open>x\<close>: with it first, then without.\<close>

definition opt_lit :: "str \<Rightarrow> 'a cont \<Rightarrow> 'a cont" where
  "opt_lit p k s = (case lit p k s of Some r \<Rightarrow> Some r | None \<Rightarrow> k s)"

text \<open>\<^verbatim>\<open>.*?\<close> under \<^verbatim>\<open>re.DOTALL\<close>: lazy, any character, the shortest stretch first.\<close>

fun lazy_dotall :: "'a cont \<Rightarrow> 'a cont" where
  "lazy_dotall k [] = k []"
| "lazy_dotall k (c # cs) =
     (case k (c # cs) of Some r \<Rightarrow> Some r | None \<Rightarrow> lazy_dotall k cs)"

text \<open>
  Under \<^verbatim>\<open>re.IGNORECASE\<close> a lower-case ASCII letter of a \<^verbatim>\<open>str\<close> pattern matches itself,
  its capital and the code points that Unicode folds to it: U+017F for \<open>s\<close>, U+0130 and
  U+0131 for \<open>i\<close>, U+212A for \<open>k\<close>. Any other character of the patterns used here
  matches itself only.
\<close>

definition ci_eq :: "nat \<Rightarrow> nat \<Rightarrow> bool" where
  "ci_eq p c \<longleftrightarrow>
     c = p \<or> (97 \<le> p \<and> p \<le> 122 \<and> c + 32 = p) \<or>
     (p = 115 \<and> c = 383) \<or> (p = 105 \<and> (c = 304 \<or> c = 305)) \<or> (p = 107 \<and> c = 8490)"

fun lit_ci :: "str \<Rightarrow> 'a cont \<Rightarrow> 'a cont" where
  "lit_ci [] k s = k s"
| "lit_ci (p # ps) k [] = None"
| "lit_ci (p # ps) k (c # cs) = (if ci_eq p c then lit_ci ps k cs else None)"

text \<open>\<^verbatim>\<open>re.search\<close>: the pattern is tried at each offset from the left, the first success wins.\<close>

fun re_search :: "'a cont \<Rightarrow> 'a cont" where
  "re_search m [] = m []"
| "re_search m (c # cs) =
     (case m (c # cs) of Some r \<Rightarrow> Some r | None \<Rightarrow> re_search m cs)"

section \<open>arreglar\_formato.py\<close>

definition DIV_CLOSE :: str where
  \<open>DIV_CLOSE = str ''themeResources}"></div>''\<close>

definition SCRIPT_OPEN :: str where
  "SCRIPT_OPEN = str ''<script''"

definition NL :: str where
  "NL = [10]"

definition CRNL :: str where
  "CRNL = [13, 10]"

text \<open>
  The pattern \<^verbatim>\<open>(themeResources}"></div>)\s*\n\s*(<script)\<close> tried at the start of a text;
  the result is the text that follows the match.
\<close>

definition fix_pattern :: "str cont" where
  "fix_pattern = lit DIV_CLOSE (ws_star (lit NL (ws_star (lit SCRIPT_OPEN Some))))"

text \<open>
  The replacement \<^verbatim>\<open>\1\n    \2\<close>: both groups are literals of the pattern, so the
  replacement is the same text for every match.
\<close>

definition FIX_REPL :: str where
  "FIX_REPL = DIV_CLOSE @ str ''\<newline>    '' @ SCRIPT_OPEN"

text \<open>
  \<^verbatim>\<open>re.sub(pattern, replacement, content)\<close>: the text is read from the left; where the
  pattern matches, the replacement is written and reading goes on after the match, elsewhere
  one character is copied.
\<close>

function re_sub_fix :: "str \<Rightarrow> str" where
  "re_sub_fix [] = []"
| "re_sub_fix (c # cs) =
     (case fix_pattern (c # cs) of
        Some rest \<Rightarrow> FIX_REPL @ re_sub_fix rest
      | None \<Rightarrow> c # re_sub_fix cs)"
  by pat_completeness auto
termination
proof (relation "measure length")
  show "wf (measure length)" by simp
next
  fix c :: nat and cs rest :: str
  assume m: "fix_pattern (c # cs) = Some rest"
  have ws: "length r \<le> length t"
    if k: "\<And>t r. k t = Some r \<Longrightarrow> length r \<le> length t" and w: "ws_star k t = Some r"
    for k :: "str cont" and t r
    using w
  proof (induction t)
    case Nil
    then show ?case using k [of "[]" r] by simp
  next
    case (Cons a t)
    then show ?case using k [of "a # t" r]
      by (auto split: if_splits option.splits)
  qed
  have li: "length r + length p \<le> length t"
    if k: "\<And>t r. k t = Some r \<Longrightarrow> length r \<le> length t" and l: "lit p k t = Some r"
    for k :: "str cont" and p t r
    using l k [of "drop (length p) t" r]
    by (auto simp: lit_def prefix_def split: if_splits)
  have 1: "length r \<le> length t" if "lit SCRIPT_OPEN Some t = Some r" for t r
    using li [of Some SCRIPT_OPEN t r] that by simp
  have 2: "length r \<le> length t" if "ws_star (lit SCRIPT_OPEN Some) t = Some r" for t r
    using ws [of "lit SCRIPT_OPEN Some" t r] 1 that by blast
  have 3: "length r \<le> length t"
    if "lit NL (ws_star (lit SCRIPT_OPEN Some)) t = Some r" for t r
    using li [of "ws_star (lit SCRIPT_OPEN Some)" NL t r] 2 that by fastforce
  have 4: "length r \<le> length t"
    if "ws_star (lit NL (ws_star (lit SCRIPT_OPEN Some))) t = Some r" for t r
    using ws [of "lit NL (ws_star (lit SCRIPT_OPEN Some))" t r] 3 that by blast
  have "length rest + length DIV_CLOSE \<le> length (c # cs)"
    using li [of "ws_star (lit NL (ws_star (lit SCRIPT_OPEN Some)))" DIV_CLOSE "c # cs" rest] 4 m
    unfolding fix_pattern_def by blast
  then show "(rest, c # cs) \<in> measure length"
    by (simp add: DIV_CLOSE_def str_def)
next
  fix c :: nat and cs :: str
  show "(cs, c # cs) \<in> measure length" by simp
qed

text \<open>
  \<^verbatim>\<open>fix_theme_resources_format(file_path)\<close> returns its Boolean, the file system it leaves
  and the lines it prints. Every exception of the body is caught and gives \<open>False\<close>.
\<close>

definition fix_theme_resources_format ::
  "filesystem \<Rightarrow> path \<Rightarrow> bool \<times> filesystem \<times> msg list" where
  "fix_theme_resources_format fs file_path =
     (case read_text fs file_path of
        None \<Rightarrow> (False, fs, [ErrorMsg])
      | Some content \<Rightarrow>
          if \<not> sublist (DIV_CLOSE @ NL @ SCRIPT_OPEN) content \<and>
             \<not> sublist (DIV_CLOSE @ CRNL @ SCRIPT_OPEN) content
          then (False, fs, [FormatoOK file_path])
          else
            (case write_text fs file_path (re_sub_fix content) of
               None \<Rightarrow> (False, fs, [Arreglando file_path, ErrorMsg])
             | Some fs' \<Rightarrow> (True, fs', [Arreglando file_path, FormatoCorregido])))"

section \<open>aplicar\_tema\_automatico.py\<close>

text \<open>The template directory; the code point 92 is the backslash.\<close>

definition PROJECT_PATH :: str where
  "PROJECT_PATH =
     str ''c:'' @ [92] @ str ''xampp'' @ [92] @ str ''NUEVOALEX'' @ [92] @
     str ''elgransazon - LISTO ADMIN LANDING PAGE - copia - copia'' @ [92] @
     str ''src'' @ [92] @ str ''main'' @ [92] @ str ''resources'' @ [92] @ str ''templates''"

text \<open>\<^verbatim>\<open>TAILWIND_PATTERN = r'cdn\.tailwindcss\.com'\<close>, a pattern given to \<^verbatim>\<open>re.search\<close>.\<close>

definition TAILWIND_PATTERN :: "str cont" where
  "TAILWIND_PATTERN = lit (str ''cdn.tailwindcss.com'') Some"

text \<open>The two markers are tested with \<^verbatim>\<open>in\<close>, as plain substrings.\<close>

definition THEME_RESOURCES_PATTERN :: str where
  "THEME_RESOURCES_PATTERN = str ''fragments/theme :: themeResources''"

definition THEME_SCRIPT_PATTERN :: str where
  "THEME_SCRIPT_PATTERN = str ''fragments/theme :: themeScript''"

definition THEME_RESOURCES :: str where
  \<open>THEME_RESOURCES = str ''    <!-- Sistema de Temas (Modo Claro/Oscuro) -->\<newline>    <div th:replace="~{fragments/theme :: themeResources}"></div>''\<close>

definition THEME_SCRIPT :: str where
  \<open>THEME_SCRIPT = str ''\<newline>    <!-- Script del Sistema de Temas -->\<newline>    <div th:replace="~{fragments/theme :: themeScript}"></div>''\<close>

text \<open>
  The head anchor \<^verbatim>\<open>(Material\+Symbols\+Outlined.*?rel="stylesheet"\s*/?>\s*)\<close>, searched
  with \<^verbatim>\<open>re.DOTALL\<close>. The matcher returns the text after the match, so the end offset of
  the match is the length of the content less the length of that text.
\<close>

definition material_pattern :: "str cont" where
  \<open>material_pattern =
     lit (str ''Material+Symbols+Outlined'')
       (lazy_dotall
          (lit (str ''rel="stylesheet"'')
             (ws_star (opt_lit (str ''/'') (lit (str ''>'') (ws_star Some))))))\<close>

text \<open>
  The body anchor \<^verbatim>\<open>(</script>\s*)(</body>)\<close>, searched with
  \<^verbatim>\<open>re.DOTALL | re.IGNORECASE\<close>. The matcher returns the text from the start of the second
  group on, which gives \<^verbatim>\<open>body_match.start(2)\<close> in the same way.
\<close>

definition body_pattern :: "str cont" where
  "body_pattern =
     lit_ci (str ''</script>'')
       (ws_star (\<lambda>s2. lit_ci (str ''</body>'') (\<lambda>_. Some s2) s2))"

text \<open>Step 1 of \<^verbatim>\<open>update_html_file\<close>: the new content when the head anchor is found.\<close>

definition insert_css :: "str \<Rightarrow> str option" where
  "insert_css content =
     (case re_search material_pattern content of
        None \<Rightarrow> None
      | Some rest \<Rightarrow>
          let insert_pos = length content - length rest
          in Some (take insert_pos content @ NL @ THEME_RESOURCES @ NL @ drop insert_pos content))"

text \<open>Step 2: the new content when the script marker is absent and the body anchor is found.\<close>

definition insert_js :: "str \<Rightarrow> str option" where
  "insert_js content =
     (if \<not> sublist THEME_SCRIPT_PATTERN content
      then (case re_search body_pattern content of
              None \<Rightarrow> None
            | Some rest \<Rightarrow>
                let insert_pos = length content - length rest
                in Some (take insert_pos content @ THEME_SCRIPT @ str ''\<newline>  '' @
                         drop insert_pos content))
      else None)"

text \<open>
  The two steps in sequence, on the variables \<^verbatim>\<open>content\<close> and \<^verbatim>\<open>modified\<close> of the
  source, with the lines printed on the way.
\<close>

definition apply_insertions :: "str \<Rightarrow> str \<times> bool \<times> msg list" where
  "apply_insertions content =
     (let (content, modified, out) =
            (case insert_css content of
               Some c \<Rightarrow> (c, True, [CssAgregado])
             | None \<Rightarrow> (content, False, []));
          (content, modified, out) =
            (case insert_js content of
               Some c \<Rightarrow> (c, True, out @ [JsAgregado])
             | None \<Rightarrow> (content, modified, out))
      in (content, modified, out))"

datatype status = Updated | Skipped | Error

text \<open>
  \<^verbatim>\<open>update_html_file(file_path)\<close> returns its status, the file system it leaves and the
  lines it prints. Every exception of the body is caught and gives \<open>Error\<close>.
\<close>

definition update_html_file :: "filesystem \<Rightarrow> path \<Rightarrow> status \<times> filesystem \<times> msg list" where
  "update_html_file fs file_path =
     (case read_text fs file_path of
        None \<Rightarrow> (Error, fs, [ErrorMsg])
      | Some content \<Rightarrow>
          if sublist THEME_RESOURCES_PATTERN content
          then (Skipped, fs, [Omitido file_path])
          else
            (let (content, modified, out) = apply_insertions content
             in if modified
                then (case write_text fs file_path content of
                        None \<Rightarrow> (Error, fs, Procesando file_path # out @ [ErrorMsg])
                      | Some fs' \<Rightarrow>
                          (Updated, fs', Procesando file_path # out @ [ArchivoGuardado]))
                else (Skipped, fs, Procesando file_path # out @ [NoSePudoModificar])))"

text \<open>
  \<^verbatim>\<open>os.walk\<close> and \<^verbatim>\<open>os.path.join\<close> belong to the platform: \<open>os_walk\<close> gives, for a base
  path, the triples \<open>(root, dirs, files)\<close> in the order of the traversal, and \<open>join\<close>
  builds the path of a file from its directory and its name.
\<close>

type_synonym walk = "path \<Rightarrow> (path \<times> str list \<times> str list) list"
type_synonym path_join = "path \<Rightarrow> str \<Rightarrow> path"

text \<open>The inner loop of \<^verbatim>\<open>find_html_files_with_tailwind\<close>, over the files of one directory.\<close>

fun scan_files :: "path_join \<Rightarrow> filesystem \<Rightarrow> path \<Rightarrow> str list \<Rightarrow> path list \<times> msg list" where
  "scan_files join fs root [] = ([], [])"
| "scan_files join fs root (file # files) =
     (let (html_files, out) = scan_files join fs root files
      in if suffix (str ''.html'') file
         then (let file_path = join root file
               in case read_text fs file_path of
                    None \<Rightarrow> (html_files, ErrorLeyendo file_path # out)
                  | Some content \<Rightarrow>
                      if re_search TAILWIND_PATTERN content \<noteq> None
                      then (file_path # html_files, out)
                      else (html_files, out))
         else (html_files, out))"

fun scan_tree ::
  "path_join \<Rightarrow> filesystem \<Rightarrow> (path \<times> str list \<times> str list) list \<Rightarrow> path list \<times> msg list" where
  "scan_tree join fs [] = ([], [])"
| "scan_tree join fs ((root, dirs, files) # rest) =
     (let (found, out) = scan_files join fs root files;
          (found', out') = scan_tree join fs rest
      in (found @ found', out @ out'))"

definition find_html_files_with_tailwind ::
  "walk \<Rightarrow> path_join \<Rightarrow> filesystem \<Rightarrow> path \<Rightarrow> path list \<times> msg list" where
  "find_html_files_with_tailwind os_walk join fs base_path = scan_tree join fs (os_walk base_path)"

text \<open>
  The loop of \<^verbatim>\<open>main\<close> over the candidate files, with the three counters
  \<open>(updated, skipped, errors)\<close>.
\<close>

fun update_all ::
  "filesystem \<Rightarrow> path list \<Rightarrow> nat \<times> nat \<times> nat \<Rightarrow> (nat \<times> nat \<times> nat) \<times> filesystem \<times> msg list" where
  "update_all fs [] counters = (counters, fs, [])"
| "update_all fs (file_path # html_files) (updated, skipped, errors) =
     (let (result, fs', out) = update_html_file fs file_path;
          counters =
            (if result = Updated then (updated + 1, skipped, errors)
             else if result = Skipped then (updated, skipped + 1, errors)
             else (updated, skipped, errors + 1));
          (counters', fs'', out') = update_all fs' html_files counters
      in (counters', fs'', out @ out'))"

text \<open>
  \<^verbatim>\<open>main()\<close> returns the counters of its summary, the file system it leaves and the lines
  printed for the files.
\<close>

definition main ::
  "walk \<Rightarrow> path_join \<Rightarrow> filesystem \<Rightarrow> (nat \<times> nat \<times> nat) \<times> filesystem \<times> msg list" where
  "main os_walk join fs =
     (let (html_files, out) = find_html_files_with_tailwind os_walk join fs PROJECT_PATH;
          (counters, fs', out') = update_all fs html_files (0, 0, 0)
      in (counters, fs', out @ out'))"

section \<open>Notions used in the properties\<close>

text \<open>
  An occurrence of the fixer's pattern at the start of a text \<open>s\<close>: the closing
  \<^verbatim>\<open>themeResources}"></div>\<close>, a stretch \<open>W\<close> of white space that holds a newline, the opening
  \<^verbatim>\<open><script\<close>, and the rest \<open>r\<close> of the text.
\<close>

definition fix_occ :: "str \<Rightarrow> str \<Rightarrow> str \<Rightarrow> bool" where
  "fix_occ s W r \<longleftrightarrow> s = DIV_CLOSE @ W @ SCRIPT_OPEN @ r \<and> list_all is_space W \<and> 10 \<in> set W"

text \<open>Pieces of the two literals of the pattern, and the white space of the replacement.\<close>

definition DIV_TAIL :: str where
  \<open>DIV_TAIL = str ''hemeResources}"></div>''\<close>

definition SCRIP :: str where
  "SCRIP = str ''<scrip''"

definition NL4 :: str where
  "NL4 = str ''\<newline>    ''"

text \<open>
  The text in which an opening \<^verbatim>\<open><script\<close> and a closing \<^verbatim>\<open>themeResources}"></div>\<close> share
  the letter \<open>t\<close>.
\<close>

definition FUSED :: str where
  \<open>FUSED = str ''<scripthemeResources}"></div>''\<close>

text \<open>The literals of the two anchors of the injector.\<close>

definition MAT :: str where
  "MAT = str ''Material+Symbols+Outlined''"

definition REL :: str where
  \<open>REL = str ''rel="stylesheet"''\<close>

definition SCRIPT_CLOSE :: str where
  "SCRIPT_CLOSE = str ''</script>''"

definition BODY_CLOSE :: str where
  "BODY_CLOSE = str ''</body>''"

text \<open>
  The text of a head anchor up to its closing \<open>>\<close> (code point 62): the icon-font
  identifier, any text, \<^verbatim>\<open>rel="stylesheet"\<close>, white space and an optional slash
  (code point 47).
\<close>

definition head_construct :: "str \<Rightarrow> bool" where
  "head_construct Z \<longleftrightarrow>
     (\<exists>B W sl. Z = MAT @ B @ REL @ W @ sl @ [62] \<and> list_all is_space W \<and> (sl = [] \<or> sl = [47]))"

text \<open>A text holds a head anchor; a text ends in a head anchor and the white space after it.\<close>

definition has_head_anchor :: "str \<Rightarrow> bool" where
  "has_head_anchor s \<longleftrightarrow> (\<exists>A Z g. s = A @ Z @ g \<and> head_construct Z)"

definition head_anchor_end :: "str \<Rightarrow> bool" where
  "head_anchor_end pre \<longleftrightarrow>
     (\<exists>A Z W2. pre = A @ Z @ W2 \<and> head_construct Z \<and> list_all is_space W2)"

text \<open>A text that matches a literal character by character under \<^verbatim>\<open>re.IGNORECASE\<close>.\<close>

definition ci_match :: "str \<Rightarrow> str \<Rightarrow> bool" where
  "ci_match P X \<longleftrightarrow> list_all2 ci_eq P X"

text \<open>
  The first group of the body anchor, a closing script tag and the white space after it, and
  a text that starts with the second group, a closing body tag.
\<close>

definition script_close :: "str \<Rightarrow> bool" where
  "script_close Z \<longleftrightarrow> (\<exists>X W. Z = X @ W \<and> ci_match SCRIPT_CLOSE X \<and> list_all is_space W)"

definition body_close_first :: "str \<Rightarrow> bool" where
  "body_close_first r \<longleftrightarrow> (\<exists>Y g. r = Y @ g \<and> ci_match BODY_CLOSE Y)"

definition script_close_end :: "str \<Rightarrow> bool" where
  "script_close_end L \<longleftrightarrow> (\<exists>A Z. L = A @ Z \<and> script_close Z)"

text \<open>A text holds a body anchor: a closing script tag, white space, a closing body tag.\<close>

definition has_body_anchor :: "str \<Rightarrow> bool" where
  "has_body_anchor s \<longleftrightarrow> (\<exists>A Z r. s = A @ Z @ r \<and> script_close Z \<and> body_close_first r)"

text \<open>The two texts that \<open>update_html_file\<close> splices in, with the newlines it adds.\<close>

definition CSS_SNIPPET :: str where
  "CSS_SNIPPET = NL @ THEME_RESOURCES @ NL"

definition JS_SNIPPET :: str where
  "JS_SNIPPET = THEME_SCRIPT @ str ''\<newline>  ''"

text \<open>No non-empty end of \<open>T\<close> is a beginning of \<open>Z\<close>.\<close>

definition apart :: "str \<Rightarrow> str \<Rightarrow> bool" where
  "apart T Z \<longleftrightarrow> list_all (\<lambda>U. U = [] \<or> \<not> prefix U Z) (suffixes T)"

text \<open>The number of places of a text at which \<open>M\<close> starts.\<close>

fun count_occ :: "str \<Rightarrow> str \<Rightarrow> nat" where
  "count_occ M [] = (if M = [] then 1 else 0)"
| "count_occ M (c # cs) = (if prefix M (c # cs) then 1 else 0) + count_occ M cs"

text \<open>A pattern and a text that agree, case-insensitively, as far as both go.\<close>

fun ci_compat :: "str \<Rightarrow> str \<Rightarrow> bool" where
  "ci_compat [] s = True"
| "ci_compat (p # P) [] = True"
| "ci_compat (p # P) (c # cs) = (ci_eq p c \<and> ci_compat P cs)"

text \<open>
  A file that \<open>update_html_file\<close> cannot change any more: it cannot be read, it holds the
  resource marker, neither insertion applies to its text, or it cannot be written.
\<close>

definition settled :: "filesystem \<Rightarrow> path \<Rightarrow> bool" where
  "settled fs p \<longleftrightarrow>
     (case fs p of
        None \<Rightarrow> True
      | Some f \<Rightarrow>
          (case contents f of
             None \<Rightarrow> True
           | Some c \<Rightarrow> sublist THEME_RESOURCES_PATTERN c \<or> apply_insertions c = (c, False, []) \<or>
                       \<not> writable f))"

text \<open>A platform for the examples: paths joined with a slash, a walk that yields a given list.\<close>

definition join_slash :: path_join where
  "join_slash root name = root @ str ''/'' @ name"

definition walk_const :: "(path \<times> str list \<times> str list) list \<Rightarrow> walk" where
  "walk_const tree base = tree"

text \<open>What the scan of the tree sees of a file: whether it can be read, and whether its text
  holds the CDN reference.\<close>

definition cdn_view :: "filesystem \<Rightarrow> path \<Rightarrow> bool option" where
  "cdn_view fs p = map_option (\<lambda>c. re_search TAILWIND_PATTERN c \<noteq> None) (read_text fs p)"

text \<open>The paths of the HTML files of a walk, in the order in which the scan meets them.\<close>

definition html_paths :: "path_join \<Rightarrow> (path \<times> str list \<times> str list) list \<Rightarrow> path list" where
  "html_paths join tree =
     concat (map (\<lambda>(root, dirs, files). map (join root) (filter (suffix (str ''.html'')) files)) tree)"

section \<open>The fixer's pattern and substitution\<close>

lemma not_space_lt: "\<not> is_space 60" by (simp add: is_space_def)
lemma space_nl: "is_space 10" by (simp add: is_space_def)

lemma ws_star_sound:
  "ws_star k s = Some r \<Longrightarrow> \<exists>W t. s = W @ t \<and> list_all is_space W \<and> k t = Some r"
proof (induction s)
  case Nil
  then show ?case by simp
next
  case (Cons c cs)
  show ?case
  proof (cases "is_space c \<and> ws_star k cs \<noteq> None")
    case True
    then have "ws_star k cs = Some r" using Cons.prems by auto
    then obtain W t where "cs = W @ t" "list_all is_space W" "k t = Some r"
      using Cons.IH by blast
    then have "c # cs = (c # W) @ t \<and> list_all is_space (c # W) \<and> k t = Some r"
      using True by simp
    then show ?thesis by blast
  next
    case False
    then have "k (c # cs) = Some r" using Cons.prems by (auto split: if_splits option.splits)
    then have "c # cs = [] @ (c # cs) \<and> list_all is_space [] \<and> k (c # cs) = Some r" by simp
    then show ?thesis by blast
  qed
qed

lemma ws_star_complete:
  "list_all is_space W \<Longrightarrow> k t \<noteq> None \<Longrightarrow> ws_star k (W @ t) \<noteq> None"
proof (induction W)
  case Nil
  then show ?case by (cases t) (auto split: option.splits)
next
  case (Cons c W)
  then show ?case by (auto split: option.splits)
qed

lemma takeWhile_run:
  "list_all is_space W \<Longrightarrow> \<not> is_space x \<Longrightarrow> takeWhile is_space (W @ x # r) = W"
  by (induction W) auto

lemma ws_run_unique:
  assumes "W @ x # r = W' @ x # r'" "list_all is_space W" "list_all is_space W'" "\<not> is_space x"
  shows "W = W' \<and> r = r'"
proof -
  have "takeWhile is_space (W @ x # r) = W" "takeWhile is_space (W' @ x # r') = W'"
    using assms(2-4) by (simp_all add: takeWhile_run)
  then have "W = W'" using assms(1) by simp
  then show ?thesis using assms(1) by simp
qed

lemma SCRIPT_OPEN_Cons: "SCRIPT_OPEN = 60 # str ''script''"
  by (simp add: SCRIPT_OPEN_def str_def)

lemma fix_occ_unique: "fix_occ s W r \<Longrightarrow> fix_occ s W' r' \<Longrightarrow> W = W' \<and> r = r'"
  unfolding fix_occ_def SCRIPT_OPEN_Cons
  using ws_run_unique [of W 60 "str ''script'' @ r" W' "str ''script'' @ r'"] not_space_lt
  by simp

lemma lit_Some: "lit p k s = Some r \<longleftrightarrow> (\<exists>t. s = p @ t \<and> k t = Some r)"
  by (auto simp: lit_def prefix_def)

lemma fix_pattern_sound: "fix_pattern s = Some r \<Longrightarrow> \<exists>W. fix_occ s W r"
proof -
  assume a: "fix_pattern s = Some r"
  then obtain s1 where s1: "s = DIV_CLOSE @ s1"
      "ws_star (lit NL (ws_star (lit SCRIPT_OPEN Some))) s1 = Some r"
    unfolding fix_pattern_def lit_Some by blast
  from ws_star_sound [OF s1(2)] obtain W1 t1 where t1: "s1 = W1 @ t1" "list_all is_space W1"
      "lit NL (ws_star (lit SCRIPT_OPEN Some)) t1 = Some r"
    by blast
  from t1(3) obtain t2 where t2: "t1 = NL @ t2" "ws_star (lit SCRIPT_OPEN Some) t2 = Some r"
    unfolding lit_Some by blast
  from ws_star_sound [OF t2(2)] obtain W2 t3 where t3: "t2 = W2 @ t3" "list_all is_space W2"
      "lit SCRIPT_OPEN Some t3 = Some r"
    by blast
  from t3(3) have t4: "t3 = SCRIPT_OPEN @ r" unfolding lit_Some by simp
  have e: "s = DIV_CLOSE @ (W1 @ NL @ W2) @ SCRIPT_OPEN @ r"
    using s1(1) t1(1) t2(1) t3(1) t4 by simp
  have sp: "list_all is_space (W1 @ NL @ W2)"
    using t1(2) t3(2) by (simp add: NL_def space_nl)
  have "10 \<in> set (W1 @ NL @ W2)" by (simp add: NL_def)
  then have "fix_occ s (W1 @ NL @ W2) r"
    unfolding fix_occ_def using e sp by blast
  then show ?thesis by blast
qed

lemma fix_pattern_complete: "fix_occ s W r \<Longrightarrow> fix_pattern s = Some r"
proof -
  assume o: "fix_occ s W r"
  then have s: "s = DIV_CLOSE @ W @ SCRIPT_OPEN @ r" and W: "list_all is_space W" "10 \<in> set W"
    by (auto simp: fix_occ_def)
  from W(2) obtain W1 W2 where W12: "W = W1 @ 10 # W2"
    using split_list [of 10 W] by blast
  then have sp: "list_all is_space W1" "list_all is_space W2" using W(1) by auto
  have 1: "lit SCRIPT_OPEN Some (SCRIPT_OPEN @ r) \<noteq> None" by (simp add: lit_def)
  have 2: "ws_star (lit SCRIPT_OPEN Some) (W2 @ SCRIPT_OPEN @ r) \<noteq> None"
    using ws_star_complete [of W2 "lit SCRIPT_OPEN Some" "SCRIPT_OPEN @ r"] sp(2) 1 by simp
  have 3: "lit NL (ws_star (lit SCRIPT_OPEN Some)) (NL @ W2 @ SCRIPT_OPEN @ r) \<noteq> None"
    using 2 by (simp add: lit_def)
  have 4: "ws_star (lit NL (ws_star (lit SCRIPT_OPEN Some))) (W1 @ NL @ W2 @ SCRIPT_OPEN @ r) \<noteq> None"
    using ws_star_complete [of W1 "lit NL (ws_star (lit SCRIPT_OPEN Some))" "NL @ W2 @ SCRIPT_OPEN @ r"]
      sp(1) 3 by simp
  have 5: "s = DIV_CLOSE @ W1 @ NL @ W2 @ SCRIPT_OPEN @ r"
    using s W12 by (simp add: NL_def)
  have "fix_pattern s \<noteq> None"
    unfolding fix_pattern_def 5 using 4 by (simp add: lit_def)
  then obtain r' where r': "fix_pattern s = Some r'" by blast
  then obtain W' where "fix_occ s W' r'" using fix_pattern_sound by blast
  then have "r' = r" using fix_occ_unique o by blast
  then show ?thesis using r' by simp
qed

lemma fix_pattern_iff: "fix_pattern s = Some r \<longleftrightarrow> (\<exists>W. fix_occ s W r)"
  using fix_pattern_sound fix_pattern_complete by blast

lemma DIV_CLOSE_Cons: "DIV_CLOSE = 116 # DIV_TAIL"
  by (simp add: DIV_CLOSE_def DIV_TAIL_def str_def)

lemma SCRIPT_OPEN_snoc: "SCRIPT_OPEN = SCRIP @ [116]"
  by (simp add: SCRIPT_OPEN_def SCRIP_def str_def)

lemma no_t_DIV_TAIL: "116 \<notin> set DIV_TAIL"
  by (simp add: DIV_TAIL_def str_def)

lemma no_t_SCRIP: "116 \<notin> set SCRIP"
  by (simp add: SCRIP_def str_def)

lemma not_space_t: "\<not> is_space 116"
  by (simp add: is_space_def)

lemma FIX_REPL_Cons: "\<exists>R. FIX_REPL = 116 # R"
  by (simp add: FIX_REPL_def DIV_CLOSE_Cons)

lemma fix_occ_hd: "fix_occ (c # cs) W r \<Longrightarrow> c = 116"
  by (simp add: fix_occ_def DIV_CLOSE_Cons)

lemma re_sub_fix_hd:
  assumes "re_sub_fix s = x # out"
  shows "\<exists>s'. s = x # s' \<and> (x \<noteq> 116 \<longrightarrow> out = re_sub_fix s')"
proof (cases s)
  case Nil
  then show ?thesis using assms by simp
next
  case (Cons c cs)
  show ?thesis
  proof (cases "fix_pattern (c # cs)")
    case None
    then show ?thesis using assms Cons by simp
  next
    case (Some rest)
    then obtain W where "fix_occ (c # cs) W rest" using fix_pattern_sound by blast
    then have c: "c = 116" by (rule fix_occ_hd)
    obtain R where R: "FIX_REPL = 116 # R" using FIX_REPL_Cons by blast
    have "re_sub_fix s = FIX_REPL @ re_sub_fix rest" using Cons Some by simp
    then have "x # out = 116 # R @ re_sub_fix rest" unfolding R using assms by simp
    then have "x = 116" by simp
    then show ?thesis using c Cons by simp
  qed
qed

lemma re_sub_fix_prefix:
  "116 \<notin> set A \<Longrightarrow> length B \<le> 1 \<Longrightarrow> prefix (A @ B) (re_sub_fix s) \<Longrightarrow> prefix (A @ B) s"
proof (induction A arbitrary: s)
  case Nil
  show ?case
  proof (cases B)
    case Nil
    then show ?thesis by simp
  next
    case (Cons b B')
    then have B: "B = [b]" using Nil.prems(2) by simp
    then obtain out where "re_sub_fix s = b # out" using Nil.prems(3) by (auto simp: prefix_def)
    then obtain s' where "s = b # s'" using re_sub_fix_hd by blast
    then show ?thesis using B by simp
  qed
next
  case (Cons a A)
  from Cons.prems(3) obtain out where out: "re_sub_fix s = a # out" "prefix (A @ B) out"
    by (auto simp: prefix_def)
  have a: "a \<noteq> 116" using Cons.prems(1) by auto
  from re_sub_fix_hd [OF out(1)] a obtain s' where s': "s = a # s'" "out = re_sub_fix s'"
    by blast
  have "prefix (A @ B) s'" using Cons.IH [of s'] Cons.prems(1,2) out(2) s'(2) by simp
  then show ?case using s'(1) by simp
qed

lemma fix_pattern_re_sub_fix:
  assumes "fix_pattern (re_sub_fix s) \<noteq> None"
  shows "fix_pattern s \<noteq> None"
proof (cases s)
  case Nil
  then show ?thesis using assms by simp
next
  case (Cons c cs)
  show ?thesis
  proof (cases "fix_pattern (c # cs)")
    case (Some rest)
    then show ?thesis using Cons by simp
  next
    case None
    then have out: "re_sub_fix s = c # re_sub_fix cs" using Cons by simp
    from assms obtain q where "fix_pattern (re_sub_fix s) = Some q" by blast
    then obtain W where W: "fix_occ (re_sub_fix s) W q" using fix_pattern_sound by blast
    then have e: "c # re_sub_fix cs = 116 # DIV_TAIL @ W @ SCRIP @ [116] @ q"
      and sp: "list_all is_space W" and nl: "10 \<in> set W"
      using out by (simp_all add: fix_occ_def DIV_CLOSE_Cons SCRIPT_OPEN_snoc)
    have nt: "116 \<notin> set (DIV_TAIL @ W @ SCRIP)"
      using no_t_DIV_TAIL no_t_SCRIP sp not_space_t by (auto simp: list_all_iff)
    have "prefix ((DIV_TAIL @ W @ SCRIP) @ [116]) (re_sub_fix cs)"
      using e by (simp add: prefix_def)
    then have "prefix ((DIV_TAIL @ W @ SCRIP) @ [116]) cs"
      using re_sub_fix_prefix [OF nt] by simp
    then obtain q' where "cs = (DIV_TAIL @ W @ SCRIP) @ [116] @ q'"
      by (auto simp: prefix_def)
    then have "fix_occ (c # cs) W q'"
      using e sp nl by (simp add: fix_occ_def DIV_CLOSE_Cons SCRIPT_OPEN_snoc)
    then have "fix_pattern (c # cs) = Some q'" by (rule fix_pattern_complete)
    then show ?thesis using None by simp
  qed
qed

lemma sublist_mono_right: "sublist x r \<Longrightarrow> sublist x (a @ r @ b)"
  using sublist_order.order.trans [of x r "a @ r @ b"] by simp

lemma FIX_REPL_shape: "FIX_REPL = 116 # (DIV_TAIL @ NL4 @ SCRIP) @ [116]"
  by (simp add: FIX_REPL_def NL4_def DIV_CLOSE_Cons SCRIPT_OPEN_snoc)

lemma no_t_FIX_mid: "116 \<notin> set (DIV_TAIL @ NL4 @ SCRIP)"
  using no_t_DIV_TAIL no_t_SCRIP by (simp add: NL4_def str_def)

lemma FIX_REPL_suffix_t:
  assumes "FIX_REPL = P @ 116 # us" "P \<noteq> []"
  shows "us = []"
proof (rule ccontr)
  assume "us \<noteq> []"
  then obtain us' z where us: "us = us' @ [z]" by (metis rev_exhaust)
  obtain p P' where P: "P = p # P'" using assms(2) by (cases P) auto
  have "(DIV_TAIL @ NL4 @ SCRIP) @ [116] = (P' @ 116 # us') @ [z]"
    using assms(1) unfolding FIX_REPL_shape P us by simp
  then have "DIV_TAIL @ NL4 @ SCRIP = P' @ 116 # us'" by (simp only: append1_eq_conv)
  then have "116 \<in> set (DIV_TAIL @ NL4 @ SCRIP)" by (simp only: set_append set_simps) simp
  then show False using no_t_FIX_mid by blast
qed

lemma fix_occ_FIX_REPL: "fix_occ (FIX_REPL @ q) NL4 q"
  by (simp add: fix_occ_def FIX_REPL_def NL4_def str_def is_space_def)

lemma all_norm_aux:
  "\<not> sublist (SCRIP @ DIV_CLOSE) s \<Longrightarrow> re_sub_fix s = P @ t \<Longrightarrow> fix_pattern t \<noteq> None
   \<Longrightarrow> prefix FIX_REPL t"
proof (induction s arbitrary: P rule: re_sub_fix.induct)
  case 1
  then show ?case by (simp add: fix_pattern_def lit_def DIV_CLOSE_Cons)
next
  case (2 c cs)
  show ?case
  proof (cases "fix_pattern (c # cs)")
    case None
    then have out: "c # re_sub_fix cs = P @ t" using "2.prems"(2) by simp
    show ?thesis
    proof (cases P)
      case Nil
      then have "fix_pattern (re_sub_fix (c # cs)) \<noteq> None" using "2.prems"(2,3) by simp
      then have "fix_pattern (c # cs) \<noteq> None" by (rule fix_pattern_re_sub_fix)
      then show ?thesis using None by simp
    next
      case (Cons p P')
      then have e: "re_sub_fix cs = P' @ t" using out by simp
      have "\<not> sublist (SCRIP @ DIV_CLOSE) cs"
        using "2.prems"(1) by (simp add: sublist_Cons_right)
      then show ?thesis using "2.IH"(1) [OF None _ e] "2.prems"(3) by blast
    qed
  next
    case (Some rest)
    then obtain W0 where W0: "fix_occ (c # cs) W0 rest" using fix_pattern_sound by blast
    then have ccs: "c # cs = (DIV_CLOSE @ W0 @ SCRIP) @ [116] @ rest"
      by (simp add: fix_occ_def SCRIPT_OPEN_snoc)
    have nr: "\<not> sublist (SCRIP @ DIV_CLOSE) rest"
    proof
      assume "sublist (SCRIP @ DIV_CLOSE) rest"
      then have "sublist (SCRIP @ DIV_CLOSE) (((DIV_CLOSE @ W0 @ SCRIP) @ [116]) @ rest @ [])"
        by (rule sublist_mono_right)
      then show False using "2.prems"(1) ccs by simp
    qed
    have out: "FIX_REPL @ re_sub_fix rest = P @ t" using "2.prems"(2) Some by simp
    then consider us where "FIX_REPL @ us = P" "re_sub_fix rest = us @ t"
      | us where "FIX_REPL = P @ us" "us @ re_sub_fix rest = t" "us \<noteq> []"
      unfolding append_eq_append_conv2 by (metis append_Nil2 append_Nil)
    then show ?thesis
    proof cases
      case 1
      then show ?thesis using "2.IH"(2) [OF Some nr 1(2)] "2.prems"(3) by blast
    next
      case 2
      show ?thesis
      proof (cases P)
        case Nil
        then have "t = FIX_REPL @ re_sub_fix rest" using 2(1,2) by simp
        then show ?thesis by simp
      next
        case (Cons p P')
        obtain u us' where us: "us = u # us'" using 2(3) by (cases us) auto
        from "2.prems"(3) obtain q where "fix_pattern t = Some q" by blast
        then obtain W where W: "fix_occ t W q" using fix_pattern_sound by blast
        then have u: "u = 116" using 2(2) us fix_occ_hd [of u "us' @ re_sub_fix rest" W q] by simp
        have "us' = []" using FIX_REPL_suffix_t [of P us'] 2(1) us u Cons by simp
        then have "116 # re_sub_fix rest = 116 # DIV_TAIL @ W @ SCRIPT_OPEN @ q"
          using W 2(2) us u by (simp add: fix_occ_def DIV_CLOSE_Cons)
        then have "prefix (DIV_TAIL @ []) (re_sub_fix rest)" by (simp add: prefix_def)
        then have "prefix (DIV_TAIL @ []) rest"
          using re_sub_fix_prefix [OF no_t_DIV_TAIL, of "[]" rest] by simp
        then obtain r' where "rest = DIV_TAIL @ r'" by (auto simp: prefix_def)
        then have "c # cs = (DIV_CLOSE @ W0) @ (SCRIP @ DIV_CLOSE) @ r'"
          using ccs by (simp add: DIV_CLOSE_Cons)
        then have "sublist (SCRIP @ DIV_CLOSE) (c # cs)"
          using sublist_appendI [of "SCRIP @ DIV_CLOSE" "DIV_CLOSE @ W0" r'] by simp
        then show ?thesis using "2.prems"(1) by blast
      qed
    qed
  qed
qed

lemma re_sub_fix_contains:
  "s = P @ t \<Longrightarrow> fix_pattern t \<noteq> None \<Longrightarrow> sublist FIX_REPL (re_sub_fix s)"
proof (induction s arbitrary: P rule: re_sub_fix.induct)
  case 1
  then show ?case by (simp add: fix_pattern_def lit_def DIV_CLOSE_Cons)
next
  case (2 c cs)
  show ?case
  proof (cases "fix_pattern (c # cs)")
    case (Some rest)
    then show ?thesis by simp
  next
    case None
    then have P: "P \<noteq> []" using "2.prems" by auto
    then obtain p P' where "P = p # P'" by (cases P) auto
    then have "cs = P' @ t" using "2.prems"(1) by simp
    then have "sublist FIX_REPL (re_sub_fix cs)" using "2.IH"(1) [OF None] "2.prems"(2) by blast
    then show ?thesis using None by (simp add: sublist_Cons_right)
  qed
qed

lemma FUSED_eq: "FUSED = SCRIP @ DIV_CLOSE"
  by (simp add: FUSED_def SCRIP_def DIV_CLOSE_def str_def)

lemma fix_occ_normal:
  assumes "prefix FIX_REPL t" "fix_occ t W q"
  shows "W = NL4"
proof -
  from assms(1) obtain q' where "t = FIX_REPL @ q'" by (auto simp: prefix_def)
  then have "fix_occ t NL4 q'" using fix_occ_FIX_REPL by simp
  then show ?thesis using fix_occ_unique assms(2) by blast
qed

lemma re_sub_fix_normalised:
  assumes "\<not> sublist FUSED s" "re_sub_fix s = P @ DIV_CLOSE @ W @ SCRIPT_OPEN @ Q"
    "list_all is_space W" "10 \<in> set W"
  shows "W = NL4"
proof -
  have o: "fix_occ (DIV_CLOSE @ W @ SCRIPT_OPEN @ Q) W Q"
    using assms(3,4) by (simp add: fix_occ_def)
  then have "fix_pattern (DIV_CLOSE @ W @ SCRIPT_OPEN @ Q) \<noteq> None"
    using fix_pattern_complete by fastforce
  then have "prefix FIX_REPL (DIV_CLOSE @ W @ SCRIPT_OPEN @ Q)"
    using all_norm_aux [of s P "DIV_CLOSE @ W @ SCRIPT_OPEN @ Q"] assms(1,2)
    by (simp add: FUSED_eq)
  then show ?thesis using fix_occ_normal o by blast
qed

lemma sublist_adjacency:
  assumes "sublist (DIV_CLOSE @ W @ SCRIPT_OPEN) s"
  shows "\<exists>P Q. s = P @ DIV_CLOSE @ W @ SCRIPT_OPEN @ Q"
  using assms unfolding sublist_def by auto

lemma re_sub_fix_no_adjacency:
  assumes "\<not> sublist FUSED s"
  shows "\<not> sublist (DIV_CLOSE @ NL @ SCRIPT_OPEN) (re_sub_fix s)"
    and "\<not> sublist (DIV_CLOSE @ CRNL @ SCRIPT_OPEN) (re_sub_fix s)"
proof -
  show "\<not> sublist (DIV_CLOSE @ NL @ SCRIPT_OPEN) (re_sub_fix s)"
  proof
    assume "sublist (DIV_CLOSE @ NL @ SCRIPT_OPEN) (re_sub_fix s)"
    then obtain P Q where "re_sub_fix s = P @ DIV_CLOSE @ NL @ SCRIPT_OPEN @ Q"
      using sublist_adjacency by blast
    then have "NL = NL4"
      using re_sub_fix_normalised [OF assms, of P NL Q] by (simp add: NL_def space_nl)
    then show False by (simp add: NL_def NL4_def str_def)
  qed
  show "\<not> sublist (DIV_CLOSE @ CRNL @ SCRIPT_OPEN) (re_sub_fix s)"
  proof
    assume "sublist (DIV_CLOSE @ CRNL @ SCRIPT_OPEN) (re_sub_fix s)"
    then obtain P Q where "re_sub_fix s = P @ DIV_CLOSE @ CRNL @ SCRIPT_OPEN @ Q"
      using sublist_adjacency by blast
    then have "CRNL = NL4"
      using re_sub_fix_normalised [OF assms, of P CRNL Q] by (simp add: CRNL_def is_space_def)
    then show False by (simp add: CRNL_def NL4_def str_def)
  qed
qed

lemma re_sub_fix_adjacency:
  assumes "sublist (DIV_CLOSE @ W @ SCRIPT_OPEN) s" "list_all is_space W" "10 \<in> set W"
  shows "sublist FIX_REPL (re_sub_fix s)"
proof -
  obtain P Q where s: "s = P @ DIV_CLOSE @ W @ SCRIPT_OPEN @ Q"
    using sublist_adjacency [OF assms(1)] by blast
  have "fix_occ (DIV_CLOSE @ W @ SCRIPT_OPEN @ Q) W Q" using assms(2,3) by (simp add: fix_occ_def)
  then have "fix_pattern (DIV_CLOSE @ W @ SCRIPT_OPEN @ Q) \<noteq> None"
    using fix_pattern_complete by fastforce
  then show ?thesis using re_sub_fix_contains [OF s] by simp
qed

lemma re_sub_fix_whitespace_only:
  "filter (\<lambda>c. \<not> is_space c) (re_sub_fix s) = filter (\<lambda>c. \<not> is_space c) s"
proof (induction s rule: re_sub_fix.induct)
  case 1
  then show ?case by simp
next
  case (2 c cs)
  show ?case
  proof (cases "fix_pattern (c # cs)")
    case None
    then show ?thesis using 2(1) by simp
  next
    case (Some rest)
    then obtain W where W: "fix_occ (c # cs) W rest" using fix_pattern_sound by blast
    then have e: "c # cs = DIV_CLOSE @ W @ SCRIPT_OPEN @ rest" and sp: "list_all is_space W"
      by (simp_all add: fix_occ_def)
    have fW: "filter (\<lambda>c. \<not> is_space c) W = []" using sp by (simp add: list_all_iff)
    have f4: "filter (\<lambda>c. \<not> is_space c) NL4 = []" by (simp add: NL4_def str_def is_space_def)
    have "filter (\<lambda>c. \<not> is_space c) (re_sub_fix (c # cs)) =
          filter (\<lambda>c. \<not> is_space c) (DIV_CLOSE @ NL4 @ SCRIPT_OPEN) @ filter (\<lambda>c. \<not> is_space c) rest"
      using Some 2(2) [OF Some] by (simp add: FIX_REPL_def NL4_def)
    also have "\<dots> = filter (\<lambda>c. \<not> is_space c) (DIV_CLOSE @ W @ SCRIPT_OPEN @ rest)"
      using fW f4 by simp
    finally show ?thesis using e by simp
  qed
qed

lemma write_text_existing:
  "fs p = Some f \<Longrightarrow> writable f \<Longrightarrow> write_text fs p s = Some (fs(p \<mapsto> f\<lparr>contents := Some s\<rparr>))"
  by (simp add: write_text_def)

lemma read_text_Some: "read_text fs p = Some c \<longleftrightarrow> (\<exists>f. fs p = Some f \<and> contents f = Some c)"
  by (auto simp: read_text_def split: option.splits)

lemma read_text_upd: "read_text (fs(p \<mapsto> f\<lparr>contents := Some s\<rparr>)) p = Some s"
  by (simp add: read_text_def)

section \<open>Files, candidates and the loop of the injector\<close>

lemma update_html_file_marker:
  "read_text fs p = Some content \<Longrightarrow> sublist THEME_RESOURCES_PATTERN content
   \<Longrightarrow> update_html_file fs p = (Skipped, fs, [Omitido p])"
  by (simp add: update_html_file_def)

lemma write_text_frame: "write_text fs q s = Some fs' \<Longrightarrow> p \<noteq> q \<Longrightarrow> fs' p = fs p"
  by (auto simp: write_text_def split: option.splits if_splits)

lemma update_html_file_frame:
  assumes "update_html_file fs q = (r, fs', out)" "p \<noteq> q"
  shows "fs' p = fs p"
proof (cases "read_text fs q")
  case None
  then show ?thesis using assms by (simp add: update_html_file_def)
next
  case (Some content)
  show ?thesis
  proof (cases "sublist THEME_RESOURCES_PATTERN content")
    case True
    then show ?thesis using assms Some by (simp add: update_html_file_def)
  next
    case False
    obtain c m out1 where a: "apply_insertions content = (c, m, out1)"
      by (cases "apply_insertions content") auto
    show ?thesis
    proof (cases "m \<and> write_text fs q c \<noteq> None")
      case True
      then obtain fs1 where w: "write_text fs q c = Some fs1" by blast
      then have "fs' = fs1" using assms(1) Some False a True by (simp add: update_html_file_def)
      then show ?thesis using write_text_frame [OF w assms(2)] by simp
    next
      case False2: False
      then have "fs' = fs" using assms(1) Some False a
        by (cases m) (auto simp: update_html_file_def split: option.splits)
      then show ?thesis by simp
    qed
  qed
qed

lemma read_text_cong: "fs' p = fs p \<Longrightarrow> read_text fs' p = read_text fs p"
  by (simp add: read_text_def)

lemma update_all_keeps:
  "(p \<in> set files \<longrightarrow> (\<exists>c. read_text fs p = Some c \<and> sublist THEME_RESOURCES_PATTERN c))
   \<Longrightarrow> update_all fs files counters = (counters', fs', out) \<Longrightarrow> fs' p = fs p"
proof (induction files arbitrary: fs counters out counters' fs')
  case Nil
  then show ?case by simp
next
  case (Cons q files)
  obtain u s e where cnt: "counters = (u, s, e)" by (cases counters) auto
  obtain r fs1 o1 where step: "update_html_file fs q = (r, fs1, o1)"
    by (cases "update_html_file fs q") auto
  have keep: "fs1 p = fs p"
  proof (cases "p = q")
    case True
    then obtain c where "read_text fs q = Some c" "sublist THEME_RESOURCES_PATTERN c"
      using Cons.prems(1) by auto
    then have "update_html_file fs q = (Skipped, fs, [Omitido q])"
      by (rule update_html_file_marker)
    then show ?thesis using step by simp
  next
    case False
    then show ?thesis using update_html_file_frame [OF step] by simp
  qed
  let ?cnt = "if r = Updated then (u + 1, s, e)
              else if r = Skipped then (u, s + 1, e) else (u, s, e + 1)"
  obtain c2 fs2 o2 where rest: "update_all fs1 files ?cnt = (c2, fs2, o2)"
    by (cases "update_all fs1 files ?cnt") auto
  have "fs' = fs2" using Cons.prems(2) cnt step rest by simp
  moreover have "fs2 p = fs1 p"
  proof (rule Cons.IH [OF _ rest])
    show "p \<in> set files \<longrightarrow> (\<exists>c. read_text fs1 p = Some c \<and> sublist THEME_RESOURCES_PATTERN c)"
      using Cons.prems(1) read_text_cong [of fs1 p fs] keep by simp
  qed
  ultimately show ?case using keep by simp
qed

lemma re_search_sound: "re_search m s = Some r \<Longrightarrow> \<exists>P t. s = P @ t \<and> m t = Some r"
proof (induction s)
  case Nil
  then show ?case by simp
next
  case (Cons c cs)
  show ?case
  proof (cases "m (c # cs)")
    case None
    then have "re_search m cs = Some r" using Cons.prems by simp
    then obtain P t where "cs = P @ t" "m t = Some r" using Cons.IH by blast
    then have "c # cs = (c # P) @ t \<and> m t = Some r" by simp
    then show ?thesis by blast
  next
    case (Some a)
    then have "c # cs = [] @ (c # cs) \<and> m (c # cs) = Some r" using Cons.prems by simp
    then show ?thesis by blast
  qed
qed

lemma re_search_complete: "m t \<noteq> None \<Longrightarrow> re_search m (P @ t) \<noteq> None"
proof (induction P)
  case Nil
  then show ?case by (cases t) (auto split: option.splits)
next
  case (Cons c P)
  then show ?case by (auto split: option.splits)
qed

lemma re_search_lit: "re_search (lit p Some) s \<noteq> None \<longleftrightarrow> sublist p s"
proof
  assume "re_search (lit p Some) s \<noteq> None"
  then obtain r where "re_search (lit p Some) s = Some r" by blast
  from re_search_sound [OF this] obtain P t where "s = P @ t" "lit p Some t = Some r" by blast
  then show "sublist p s" by (auto simp: lit_def sublist_def prefix_def split: if_splits)
next
  assume "sublist p s"
  then obtain P Q where s: "s = P @ p @ Q" by (auto simp: sublist_def)
  have "lit p Some (p @ Q) \<noteq> None" by (simp add: lit_def)
  then show "re_search (lit p Some) s \<noteq> None"
    unfolding s using re_search_complete [of "lit p Some" "p @ Q" P] by simp
qed

lemma scan_files_found:
  "p \<in> set (fst (scan_files join fs root files))
   \<Longrightarrow> \<exists>c. read_text fs p = Some c \<and> re_search TAILWIND_PATTERN c \<noteq> None"
proof (induction files)
  case Nil
  then show ?case by simp
next
  case (Cons nm files)
  obtain h o1 where r: "scan_files join fs root files = (h, o1)"
    by (cases "scan_files join fs root files") auto
  show ?case
  proof (cases "p \<in> set h")
    case True
    then show ?thesis using Cons.IH r by simp
  next
    case False
    then have "p = join root nm \<and> (\<exists>c. read_text fs (join root nm) = Some c \<and>
        re_search TAILWIND_PATTERN c \<noteq> None)"
      using Cons.prems r by (auto simp: Let_def split: if_splits option.splits)
    then show ?thesis by blast
  qed
qed

lemma scan_tree_found:
  "p \<in> set (fst (scan_tree join fs tree))
   \<Longrightarrow> \<exists>c. read_text fs p = Some c \<and> re_search TAILWIND_PATTERN c \<noteq> None"
proof (induction tree)
  case Nil
  then show ?case by simp
next
  case (Cons t tree)
  obtain root dirs files where t: "t = (root, dirs, files)" by (cases t) auto
  obtain h o1 where r: "scan_files join fs root files = (h, o1)"
    by (cases "scan_files join fs root files") auto
  obtain h2 o2 where r2: "scan_tree join fs tree = (h2, o2)"
    by (cases "scan_tree join fs tree") auto
  have "p \<in> set h \<or> p \<in> set h2" using Cons.prems t r r2 by simp
  then show ?case
  proof
    assume "p \<in> set h"
    then show ?thesis using scan_files_found [of p join fs root files] r by simp
  next
    assume "p \<in> set h2"
    then show ?thesis using Cons.IH r2 by simp
  qed
qed

lemma candidates_have_cdn:
  "p \<in> set (fst (find_html_files_with_tailwind os_walk join fs base_path))
   \<Longrightarrow> \<exists>c. read_text fs p = Some c \<and> sublist (str ''cdn.tailwindcss.com'') c"
  using scan_tree_found [of p join fs "os_walk base_path"] re_search_lit
  by (simp add: find_html_files_with_tailwind_def TAILWIND_PATTERN_def)

lemma main_unfold:
  "main os_walk join fs =
     (let r = update_all fs (fst (find_html_files_with_tailwind os_walk join fs PROJECT_PATH)) (0, 0, 0)
      in (fst r, fst (snd r), snd (find_html_files_with_tailwind os_walk join fs PROJECT_PATH) @ snd (snd r)))"
  by (simp add: main_def Let_def split: prod.splits)

section \<open>The anchors and the two insertions\<close>

lemma block_split:
  assumes "L @ R = A @ Z @ g"
  shows "(\<exists>b. L = A @ Z @ b \<and> g = b @ R) \<or> (\<exists>a. R = a @ Z @ g \<and> A = L @ a) \<or>
         (\<exists>U V. U \<noteq> [] \<and> V \<noteq> [] \<and> Z = U @ V \<and> L = A @ U \<and> R = V @ g)"
proof -
  from assms consider us where "L = A @ us" "us @ R = Z @ g"
    | us where "L @ us = A" "R = us @ Z @ g"
    unfolding append_eq_append_conv2 by blast
  then show ?thesis
  proof cases
    case 1
    from 1(2) consider vs where "us = Z @ vs" "vs @ R = g"
      | vs where "us @ vs = Z" "R = vs @ g"
      unfolding append_eq_append_conv2 by blast
    then show ?thesis
    proof cases
      case 1
      then show ?thesis using \<open>L = A @ us\<close> by auto
    next
      case 2
      show ?thesis
      proof (cases "us = []")
        case True
        then have "R = [] @ Z @ g \<and> A = L @ []" using 2 \<open>L = A @ us\<close> by simp
        then show ?thesis by blast
      next
        case False
        show ?thesis
        proof (cases "vs = []")
          case True
          then have "L = A @ Z @ [] \<and> g = [] @ R" using 2 \<open>L = A @ us\<close> by simp
          then show ?thesis by blast
        next
          case vs: False
          have "us \<noteq> [] \<and> vs \<noteq> [] \<and> Z = us @ vs \<and> L = A @ us \<and> R = vs @ g"
            using False vs 2 \<open>L = A @ us\<close> by simp
          then show ?thesis by blast
        qed
      qed
    qed
  next
    case 2
    then have "R = us @ Z @ g \<and> A = L @ us" by simp
    then show ?thesis by blast
  qed
qed

lemma apartD:
  assumes "apart T Z" "suffix U T" "U \<noteq> []"
  shows "\<not> prefix U Z"
  using assms by (auto simp: apart_def list_all_iff in_set_suffixes)

lemma block_split_insert:
  assumes "L @ T @ R = A @ Z @ g" "T \<noteq> []" "hd T \<notin> set Z" "apart T Z" "\<not> sublist Z T"
  shows "(\<exists>b. L = A @ Z @ b \<and> g = b @ T @ R) \<or> (\<exists>a. R = a @ Z @ g \<and> A = L @ T @ a)"
proof -
  from block_split [OF assms(1)] consider
      b where "L = A @ Z @ b" "g = b @ T @ R"
    | a where "T @ R = a @ Z @ g" "A = L @ a"
    | U V where "U \<noteq> []" "V \<noteq> []" "Z = U @ V" "L = A @ U" "T @ R = V @ g"
    by blast
  then show ?thesis
  proof cases
    case 1
    then show ?thesis by blast
  next
    case 3
    obtain v V' where V: "V = v # V'" using 3(2) by (cases V) auto
    obtain t T' where T: "T = t # T'" using assms(2) by (cases T) auto
    have "v = t" using 3(5) V T by simp
    then have "hd T \<in> set Z" using 3(3) V T by simp
    then show ?thesis using assms(3) by blast
  next
    case 2
    from block_split [OF 2(1)] consider
        b where "T = a @ Z @ b"
      | a' where "R = a' @ Z @ g" "a = T @ a'"
      | U V where "U \<noteq> []" "V \<noteq> []" "Z = U @ V" "T = a @ U" "R = V @ g"
      by blast
    then show ?thesis
    proof cases
      case 1
      then have "sublist Z T" unfolding sublist_def by blast
      then show ?thesis using assms(5) by blast
    next
      case 2
      then show ?thesis using \<open>A = L @ a\<close> by simp
    next
      case 3
      have "suffix U T" using 3(4) by (simp add: suffix_def)
      then have "\<not> prefix U Z" using apartD [OF assms(4)] 3(1) by blast
      then show ?thesis using 3(3) by simp
    qed
  qed
qed

lemma sublist_insert:
  assumes "sublist Z (L @ T @ R)" "T \<noteq> []" "hd T \<notin> set Z" "apart T Z" "\<not> sublist Z T"
  shows "sublist Z (L @ R)"
proof -
  from assms(1) obtain A g where "L @ T @ R = A @ Z @ g" by (auto simp: sublist_def)
  from block_split_insert [OF this assms(2-5)] show ?thesis
  proof
    assume "\<exists>b. L = A @ Z @ b \<and> g = b @ T @ R"
    then obtain b where "L @ R = A @ Z @ (b @ R)" by auto
    then show ?thesis unfolding sublist_def by blast
  next
    assume "\<exists>a. R = a @ Z @ g \<and> A = L @ T @ a"
    then obtain a where "L @ R = (L @ a) @ Z @ g" by auto
    then show ?thesis unfolding sublist_def by blast
  qed
qed

lemma sublist_keep:
  assumes "sublist Z (L @ R)" "R \<noteq> []" "hd R \<notin> set Z"
  shows "sublist Z (L @ T @ R)"
proof -
  from assms(1) obtain A g where "L @ R = A @ Z @ g" by (auto simp: sublist_def)
  from block_split [OF this] consider
      b where "L = A @ Z @ b"
    | a where "R = a @ Z @ g"
    | U V where "U \<noteq> []" "V \<noteq> []" "Z = U @ V" "L = A @ U" "R = V @ g"
    by blast
  then show ?thesis
  proof cases
    case 1
    then have "L @ T @ R = A @ Z @ (b @ T @ R)" by simp
    then show ?thesis unfolding sublist_def by blast
  next
    case 2
    then have "L @ T @ R = (L @ T @ a) @ Z @ g" by simp
    then show ?thesis unfolding sublist_def by blast
  next
    case 3
    obtain v V' where V: "V = v # V'" using 3(2) by (cases V) auto
    then have "hd R \<in> set Z" using 3(3,5) by simp
    then show ?thesis using assms(3) by blast
  qed
qed

lemma material_pattern_alt:
  "material_pattern =
     lit MAT (lazy_dotall (lit REL (ws_star (opt_lit [47] (lit [62] (ws_star Some))))))"
  by (simp add: material_pattern_def MAT_def REL_def str_def)

lemma body_pattern_alt:
  "body_pattern = lit_ci SCRIPT_CLOSE (ws_star (\<lambda>s2. lit_ci BODY_CLOSE (\<lambda>_. Some s2) s2))"
  by (simp add: body_pattern_def SCRIPT_CLOSE_def BODY_CLOSE_def)

lemma ws_star_Some: "ws_star Some s = Some (dropWhile is_space s)"
  by (induction s) auto

lemma lazy_dotall_sound: "lazy_dotall k s = Some r \<Longrightarrow> \<exists>B t. s = B @ t \<and> k t = Some r"
proof (induction s)
  case Nil
  then show ?case by simp
next
  case (Cons c cs)
  show ?case
  proof (cases "k (c # cs)")
    case None
    then have "lazy_dotall k cs = Some r" using Cons.prems by simp
    then obtain B t where "cs = B @ t" "k t = Some r" using Cons.IH by blast
    then have "c # cs = (c # B) @ t \<and> k t = Some r" by simp
    then show ?thesis by blast
  next
    case (Some a)
    then have "c # cs = [] @ (c # cs) \<and> k (c # cs) = Some r" using Cons.prems by simp
    then show ?thesis by blast
  qed
qed

lemma lazy_dotall_complete: "k t \<noteq> None \<Longrightarrow> lazy_dotall k (B @ t) \<noteq> None"
proof (induction B)
  case Nil
  then show ?case by (cases t) (auto split: option.splits)
next
  case (Cons c B)
  then show ?case by (auto split: option.splits)
qed

lemma opt_lit_sound:
  "opt_lit p k s = Some r \<Longrightarrow> (\<exists>t. s = p @ t \<and> k t = Some r) \<or> k s = Some r"
  by (auto simp: opt_lit_def lit_Some split: option.splits)

lemma opt_lit_complete: "k s \<noteq> None \<Longrightarrow> opt_lit p k s \<noteq> None"
  by (auto simp: opt_lit_def split: option.splits)

lemma opt_lit_complete2: "k t \<noteq> None \<Longrightarrow> opt_lit p k (p @ t) \<noteq> None"
  by (auto simp: opt_lit_def lit_def split: option.splits)

text \<open>What a successful match of the head anchor at the start of a text looks like.\<close>

lemma material_pattern_sound:
  assumes "material_pattern s = Some r"
  shows "\<exists>Z W2. s = Z @ W2 @ r \<and> head_construct Z \<and> list_all is_space W2 \<and>
           (r = [] \<or> \<not> is_space (hd r))"
proof -
  from assms obtain t1 where t1: "s = MAT @ t1"
      "lazy_dotall (lit REL (ws_star (opt_lit [47] (lit [62] (ws_star Some))))) t1 = Some r"
    unfolding material_pattern_alt lit_Some by blast
  from lazy_dotall_sound [OF t1(2)] obtain B t2 where t2: "t1 = B @ t2"
      "lit REL (ws_star (opt_lit [47] (lit [62] (ws_star Some)))) t2 = Some r"
    by blast
  from t2(2) obtain t3 where t3: "t2 = REL @ t3"
      "ws_star (opt_lit [47] (lit [62] (ws_star Some))) t3 = Some r"
    unfolding lit_Some by blast
  from ws_star_sound [OF t3(2)] obtain W t4 where t4: "t3 = W @ t4" "list_all is_space W"
      "opt_lit [47] (lit [62] (ws_star Some)) t4 = Some r"
    by blast
  from opt_lit_sound [OF t4(3)] obtain sl t5 where t5: "t4 = sl @ t5" "sl = [] \<or> sl = [47]"
      "lit [62] (ws_star Some) t5 = Some r"
    by (metis append_Nil)
  from t5(3) obtain t6 where t6: "t5 = [62] @ t6" "ws_star Some t6 = Some r"
    unfolding lit_Some by blast
  then have r: "r = dropWhile is_space t6" by (simp add: ws_star_Some)
  have e: "s = (MAT @ B @ REL @ W @ sl @ [62]) @ takeWhile is_space t6 @ r"
    using t1(1) t2(1) t3(1) t4(1) t5(1) t6(1) r by simp
  have c: "head_construct (MAT @ B @ REL @ W @ sl @ [62])"
    unfolding head_construct_def using t4(2) t5(2) by blast
  have w: "list_all is_space (takeWhile is_space t6)"
    by (simp add: list_all_iff) (meson set_takeWhileD)
  have "r = [] \<or> \<not> is_space (hd r)" unfolding r by (metis hd_dropWhile)
  then show ?thesis using e c w by blast
qed

lemma material_pattern_complete:
  assumes "head_construct Z"
  shows "material_pattern (Z @ g) \<noteq> None"
proof -
  from assms obtain B W sl where Z: "Z = MAT @ B @ REL @ W @ sl @ [62]"
      and W: "list_all is_space W" and sl: "sl = [] \<or> sl = [47]"
    unfolding head_construct_def by blast
  have 1: "lit [62] (ws_star Some) ([62] @ g) \<noteq> None" by (simp add: lit_def ws_star_Some)
  have 2: "opt_lit [47] (lit [62] (ws_star Some)) (sl @ [62] @ g) \<noteq> None"
    using sl opt_lit_complete [of "lit [62] (ws_star Some)" "[62] @ g" "[47]"]
      opt_lit_complete2 [of "lit [62] (ws_star Some)" "[62] @ g" "[47]"] 1 by auto
  have 3: "ws_star (opt_lit [47] (lit [62] (ws_star Some))) (W @ sl @ [62] @ g) \<noteq> None"
    using ws_star_complete [of W "opt_lit [47] (lit [62] (ws_star Some))" "sl @ [62] @ g"] W 2
    by simp
  have 4: "lit REL (ws_star (opt_lit [47] (lit [62] (ws_star Some)))) (REL @ W @ sl @ [62] @ g)
      \<noteq> None"
    using 3 by (simp add: lit_def)
  have 5: "lazy_dotall (lit REL (ws_star (opt_lit [47] (lit [62] (ws_star Some)))))
      (B @ REL @ W @ sl @ [62] @ g) \<noteq> None"
    using lazy_dotall_complete
      [of "lit REL (ws_star (opt_lit [47] (lit [62] (ws_star Some))))" "REL @ W @ sl @ [62] @ g" B] 4
    by simp
  show ?thesis unfolding material_pattern_alt Z using 5 by (simp add: lit_def)
qed

lemma lit_ci_Some:
  "lit_ci P k s = Some r \<longleftrightarrow> (\<exists>X t. s = X @ t \<and> ci_match P X \<and> k t = Some r)"
proof (induction P arbitrary: s)
  case Nil
  then show ?case by (simp add: ci_match_def)
next
  case (Cons p P)
  show ?case
  proof (cases s)
    case Nil
    then show ?thesis by (simp add: ci_match_def)
  next
    case (Cons c cs)
    show ?thesis
    proof
      assume a: "lit_ci (p # P) k s = Some r"
      then have p: "ci_eq p c" and "lit_ci P k cs = Some r"
        using Cons by (auto split: if_splits)
      then obtain X t where "cs = X @ t" "ci_match P X" "k t = Some r"
        using Cons.IH by blast
      then have "s = (c # X) @ t \<and> ci_match (p # P) (c # X) \<and> k t = Some r"
        using Cons p by (simp add: ci_match_def)
      then show "\<exists>X t. s = X @ t \<and> ci_match (p # P) X \<and> k t = Some r" by blast
    next
      assume "\<exists>X t. s = X @ t \<and> ci_match (p # P) X \<and> k t = Some r"
      then obtain X t where X: "s = X @ t" "ci_match (p # P) X" "k t = Some r" by blast
      then obtain x X' where X': "X = x # X'" "ci_eq p x" "ci_match P X'"
        by (auto simp: ci_match_def list_all2_Cons1)
      then have "cs = X' @ t" "c = x" using X(1) Cons by simp_all
      then have "lit_ci P k cs = Some r" using Cons.IH X' X(3) by blast
      then show "lit_ci (p # P) k s = Some r" using Cons X'(2) \<open>c = x\<close> by simp
    qed
  qed
qed

lemma ci_match_lt: "ci_match BODY_CLOSE Y \<Longrightarrow> \<exists>Y'. Y = 60 # Y'"
  by (auto simp: ci_match_def BODY_CLOSE_def str_def list_all2_Cons1 ci_eq_def)

text \<open>What a successful match of the body anchor at the start of a text looks like.\<close>

lemma body_pattern_iff:
  "body_pattern s = Some r \<longleftrightarrow> (\<exists>Z. s = Z @ r \<and> script_close Z \<and> body_close_first r)"
proof
  assume "body_pattern s = Some r"
  then obtain X t1 where t1: "s = X @ t1" "ci_match SCRIPT_CLOSE X"
      "ws_star (\<lambda>s2. lit_ci BODY_CLOSE (\<lambda>_. Some s2) s2) t1 = Some r"
    unfolding body_pattern_alt lit_ci_Some by blast
  from ws_star_sound [OF t1(3)] obtain W t2 where t2: "t1 = W @ t2" "list_all is_space W"
      "lit_ci BODY_CLOSE (\<lambda>_. Some t2) t2 = Some r"
    by blast
  from t2(3) obtain Y g where Y: "t2 = Y @ g" "ci_match BODY_CLOSE Y" "t2 = r"
    unfolding lit_ci_Some by auto
  have "s = (X @ W) @ r" using t1(1) t2(1) Y(3) by simp
  moreover have "script_close (X @ W)" unfolding script_close_def using t1(2) t2(2) by blast
  moreover have "body_close_first r" unfolding body_close_first_def using Y by blast
  ultimately show "\<exists>Z. s = Z @ r \<and> script_close Z \<and> body_close_first r" by blast
next
  assume "\<exists>Z. s = Z @ r \<and> script_close Z \<and> body_close_first r"
  then obtain X W Y g where a: "s = (X @ W) @ r" "ci_match SCRIPT_CLOSE X" "list_all is_space W"
      "r = Y @ g" "ci_match BODY_CLOSE Y"
    unfolding script_close_def body_close_first_def by blast
  have 1: "lit_ci BODY_CLOSE (\<lambda>_. Some r) r = Some r"
    unfolding lit_ci_Some using a(4,5) by blast
  then have 2: "(\<lambda>s2. lit_ci BODY_CLOSE (\<lambda>_. Some s2) s2) r \<noteq> None" by simp
  have "ws_star (\<lambda>s2. lit_ci BODY_CLOSE (\<lambda>_. Some s2) s2) (W @ r) \<noteq> None"
    using ws_star_complete [of W "\<lambda>s2. lit_ci BODY_CLOSE (\<lambda>_. Some s2) s2" r] a(3) 2 by blast
  then obtain r' where r': "ws_star (\<lambda>s2. lit_ci BODY_CLOSE (\<lambda>_. Some s2) s2) (W @ r) = Some r'"
    by blast
  from ws_star_sound [OF r'] obtain W' t where t: "W @ r = W' @ t" "list_all is_space W'"
      "lit_ci BODY_CLOSE (\<lambda>_. Some t) t = Some r'"
    by blast
  from t(3) obtain Y' g' where Y': "t = Y' @ g'" "ci_match BODY_CLOSE Y'" "t = r'"
    unfolding lit_ci_Some by auto
  obtain y where y: "Y = 60 # y" using ci_match_lt [OF a(5)] by blast
  obtain y' where y': "Y' = 60 # y'" using ci_match_lt [OF Y'(2)] by blast
  have "W @ 60 # (y @ g) = W' @ 60 # (y' @ g')" using t(1) a(4) Y'(1) y y' by simp
  then have "y @ g = y' @ g'"
    using ws_run_unique [of W 60 "y @ g" W' "y' @ g'"] a(3) t(2) not_space_lt by blast
  then have "r' = r" using a(4) Y'(1,3) y y' by simp
  then have "ws_star (\<lambda>s2. lit_ci BODY_CLOSE (\<lambda>_. Some s2) s2) (W @ r) = Some r" using r' by simp
  then show "body_pattern s = Some r"
    unfolding body_pattern_alt lit_ci_Some using a(1,2) by auto
qed

lemma re_search_material_Some:
  assumes "re_search material_pattern s = Some r"
  shows "\<exists>A Z W2. s = A @ Z @ W2 @ r \<and> head_construct Z \<and> list_all is_space W2 \<and>
           (r = [] \<or> \<not> is_space (hd r))"
proof -
  from re_search_sound [OF assms] obtain A t where "s = A @ t" "material_pattern t = Some r"
    by blast
  then show ?thesis using material_pattern_sound [of t r] by auto
qed

lemma re_search_material_iff: "re_search material_pattern s \<noteq> None \<longleftrightarrow> has_head_anchor s"
proof
  assume "re_search material_pattern s \<noteq> None"
  then obtain r where "re_search material_pattern s = Some r" by blast
  from re_search_material_Some [OF this] obtain A Z W2 where "s = A @ Z @ (W2 @ r)"
      "head_construct Z"
    by auto
  then show "has_head_anchor s" unfolding has_head_anchor_def by blast
next
  assume "has_head_anchor s"
  then obtain A Z g where s: "s = A @ Z @ g" and "head_construct Z"
    unfolding has_head_anchor_def by blast
  then have "material_pattern (Z @ g) \<noteq> None" using material_pattern_complete by blast
  then show "re_search material_pattern s \<noteq> None"
    unfolding s using re_search_complete [of material_pattern "Z @ g" A] by simp
qed

lemma re_search_body_Some:
  assumes "re_search body_pattern s = Some r"
  shows "\<exists>A Z. s = A @ Z @ r \<and> script_close Z \<and> body_close_first r"
proof -
  from re_search_sound [OF assms] obtain A t where "s = A @ t" "body_pattern t = Some r"
    by blast
  then show ?thesis unfolding body_pattern_iff by auto
qed

lemma re_search_body_iff: "re_search body_pattern s \<noteq> None \<longleftrightarrow> has_body_anchor s"
proof
  assume "re_search body_pattern s \<noteq> None"
  then obtain r where "re_search body_pattern s = Some r" by blast
  from re_search_body_Some [OF this] show "has_body_anchor s"
    unfolding has_body_anchor_def by blast
next
  assume "has_body_anchor s"
  then obtain A Z r where s: "s = A @ Z @ r" and "script_close Z" "body_close_first r"
    unfolding has_body_anchor_def by blast
  then have "body_pattern (Z @ r) = Some r" unfolding body_pattern_iff by blast
  then show "re_search body_pattern s \<noteq> None"
    unfolding s using re_search_complete [of body_pattern "Z @ r" A] by simp
qed

lemma slice_at: "s = pre @ r \<Longrightarrow> take (length s - length r) s = pre \<and> drop (length s - length r) s = r"
  by simp

lemma insert_css_Some:
  assumes "insert_css s = Some c"
  shows "\<exists>A Z W2 r. s = A @ Z @ W2 @ r \<and> head_construct Z \<and> list_all is_space W2 \<and>
           (r = [] \<or> \<not> is_space (hd r)) \<and> re_search material_pattern s = Some r \<and>
           c = (A @ Z @ W2) @ CSS_SNIPPET @ r"
proof -
  from assms obtain r where r: "re_search material_pattern s = Some r"
    by (auto simp: insert_css_def split: option.splits)
  from re_search_material_Some [OF r] obtain A Z W2 where a: "s = (A @ Z @ W2) @ r"
      "head_construct Z" "list_all is_space W2" "r = [] \<or> \<not> is_space (hd r)"
    by auto
  have "c = take (length s - length r) s @ NL @ THEME_RESOURCES @ NL @ drop (length s - length r) s"
    using assms r by (simp add: insert_css_def Let_def)
  then have "c = (A @ Z @ W2) @ CSS_SNIPPET @ r"
    using slice_at [OF a(1)] by (simp add: CSS_SNIPPET_def)
  then show ?thesis using a r by auto
qed

lemma insert_css_None: "insert_css s = None \<longleftrightarrow> \<not> has_head_anchor s"
  unfolding re_search_material_iff [symmetric]
  by (auto simp: insert_css_def Let_def split: option.splits)

lemma insert_js_Some:
  assumes "insert_js s = Some c"
  shows "\<not> sublist THEME_SCRIPT_PATTERN s \<and>
         (\<exists>A Z r. s = A @ Z @ r \<and> script_close Z \<and> body_close_first r \<and>
            re_search body_pattern s = Some r \<and> c = (A @ Z) @ JS_SNIPPET @ r)"
proof -
  from assms have n: "\<not> sublist THEME_SCRIPT_PATTERN s"
    by (auto simp: insert_js_def split: if_splits)
  from assms n obtain r where r: "re_search body_pattern s = Some r"
    by (auto simp: insert_js_def split: option.splits)
  from re_search_body_Some [OF r] obtain A Z where a: "s = (A @ Z) @ r" "script_close Z"
      "body_close_first r"
    by auto
  have "c = take (length s - length r) s @ THEME_SCRIPT @ str ''\<newline>  '' @
            drop (length s - length r) s"
    using assms r n by (simp add: insert_js_def Let_def)
  then have "c = (A @ Z) @ JS_SNIPPET @ r"
    using slice_at [OF a(1)] by (simp add: JS_SNIPPET_def)
  then show ?thesis using a r n by auto
qed

lemma insert_js_None:
  "insert_js s = None \<longleftrightarrow> sublist THEME_SCRIPT_PATTERN s \<or> \<not> has_body_anchor s"
  unfolding re_search_body_iff [symmetric]
  by (auto simp: insert_js_def Let_def split: option.splits)

lemma ws_run_unique2:
  assumes "W @ x # r = W' @ x' # r'" "list_all is_space W" "list_all is_space W'"
    "\<not> is_space x" "\<not> is_space x'"
  shows "W = W' \<and> x = x' \<and> r = r'"
proof -
  have "takeWhile is_space (W @ x # r) = W" "takeWhile is_space (W' @ x' # r') = W'"
    using assms(2-5) by (simp_all add: takeWhile_run)
  then have "W = W'" using assms(1) by simp
  then show ?thesis using assms(1) by simp
qed

text \<open>The last character of a text that is not white space is determined by the text.\<close>

lemma trailing_ws_unique:
  assumes "Q @ x # V = Q' @ x' # V'" "list_all is_space V" "list_all is_space V'"
    "\<not> is_space x" "\<not> is_space x'"
  shows "Q = Q' \<and> x = x' \<and> V = V'"
proof -
  have "rev V @ x # rev Q = rev V' @ x' # rev Q'"
    using arg_cong [OF assms(1), of rev] by simp
  moreover have "list_all is_space (rev V)" "list_all is_space (rev V')"
    using assms(2,3) by (simp_all add: list_all_iff)
  ultimately have "rev V = rev V' \<and> x = x' \<and> rev Q = rev Q'"
    using ws_run_unique2 [of "rev V" x "rev Q" "rev V'" x' "rev Q'"] assms(4,5) by blast
  then show ?thesis by simp
qed

lemma ci_match_append2:
  assumes "ci_match P (U @ V)"
  shows "\<exists>P1 P2. P = P1 @ P2 \<and> ci_match P1 U \<and> ci_match P2 V"
  using assms unfolding ci_match_def by (auto simp: list_all2_append2)

lemma ci_match_Nil: "ci_match P [] \<longleftrightarrow> P = []"
  by (simp add: ci_match_def)

lemma ci_match_last:
  assumes "ci_match P U" "U \<noteq> []"
  shows "\<exists>P'. P = P' @ [last P] \<and> ci_eq (last P) (last U)"
proof -
  obtain U' u where U: "U = U' @ [u]" using assms(2) by (metis rev_exhaust)
  from ci_match_append2 [of P U' "[u]"] assms(1) U obtain P1 P2 where
    P: "P = P1 @ P2" "ci_match P2 [u]" by blast
  then obtain p where "P2 = [p]" "ci_eq p u"
    by (auto simp: ci_match_def list_all2_Cons2)
  then show ?thesis using P U by simp
qed

text \<open>A proper non-empty beginning of a case-insensitive match ends in a character that
  matches a pattern character other than the last one.\<close>

lemma ci_match_proper_prefix:
  assumes "ci_match P (U @ V)" "U \<noteq> []" "V \<noteq> []"
  shows "\<exists>p \<in> set (butlast P). ci_eq p (last U)"
proof -
  from ci_match_append2 [OF assms(1)] obtain P1 P2 where
    P: "P = P1 @ P2" "ci_match P1 U" "ci_match P2 V" by blast
  have P2: "P2 \<noteq> []" using P(3) assms(3) by (auto simp: ci_match_def)
  from ci_match_last [OF P(2) assms(2)] obtain P' where
    P1: "P1 = P' @ [last P1]" "ci_eq (last P1) (last U)" by blast
  have "butlast P = P1 @ butlast P2" using P(1) P2 by (simp add: butlast_append)
  then have "last P1 \<in> set (butlast P)" using P1(1) by (metis in_set_conv_decomp append.assoc append_Cons append_Nil)
  then show ?thesis using P1(2) by blast
qed

lemma inner_char:
  "ci_eq p c \<Longrightarrow> 33 \<le> p \<Longrightarrow> p \<le> 122 \<Longrightarrow> p \<noteq> 62 \<Longrightarrow> c \<noteq> 62 \<and> \<not> is_space c"
  unfolding ci_eq_def is_space_def by arith

lemma script_inner_chars:
  "p \<in> set (butlast SCRIPT_CLOSE) \<Longrightarrow> ci_eq p c \<Longrightarrow> c \<noteq> 62 \<and> \<not> is_space c"
  using inner_char [of p c] by (auto simp: SCRIPT_CLOSE_def str_def)

lemma body_inner_chars:
  "p \<in> set (butlast BODY_CLOSE) \<Longrightarrow> ci_eq p c \<Longrightarrow> c \<noteq> 62 \<and> \<not> is_space c"
  using inner_char [of p c] by (auto simp: BODY_CLOSE_def str_def)

lemma ci_match_script_end:
  assumes "ci_match SCRIPT_CLOSE X"
  shows "\<exists>X' t. X = X' @ [t, 62] \<and> (t = 116 \<or> t = 84)"
proof -
  have "SCRIPT_CLOSE = str ''</scrip'' @ [116, 62]" by (simp add: SCRIPT_CLOSE_def str_def)
  then have "ci_match (str ''</scrip'' @ [116, 62]) X" using assms by simp
  then obtain X' X2 where X: "X = X' @ X2" "list_all2 ci_eq [116, 62] X2"
    unfolding ci_match_def by (auto simp: list_all2_append1)
  then obtain t g where "X2 = [t, g]" "ci_eq 116 t" "ci_eq 62 g"
    by (auto simp: list_all2_Cons1)
  then have "X2 = [t, 62] \<and> (t = 116 \<or> t = 84)" by (auto simp: ci_eq_def)
  then show ?thesis using X(1) by blast
qed

lemma not_space_misc: "\<not> is_space 62" "\<not> is_space 47" "\<not> is_space 34" "\<not> is_space 116"
  "\<not> is_space 84"
  by (simp_all add: is_space_def)

lemma REL_snoc: "\<exists>R'. REL = R' @ [34]"
proof -
  have \<open>REL = str ''rel="stylesheet'' @ [34]\<close> by (simp add: REL_def str_def)
  then show ?thesis by blast
qed

lemma script_close_end_shape:
  assumes "script_close_end L"
  shows "\<exists>Q t V. L = Q @ [t] @ 62 # V \<and> (t = 116 \<or> t = 84) \<and> list_all is_space V"
proof -
  from assms obtain A X W where L: "L = A @ X @ W" "ci_match SCRIPT_CLOSE X" "list_all is_space W"
    unfolding script_close_end_def script_close_def by auto
  from ci_match_script_end [OF L(2)] obtain X' t where "X = X' @ [t, 62]" "t = 116 \<or> t = 84"
    by blast
  then have "L = (A @ X') @ [t] @ 62 # W \<and> (t = 116 \<or> t = 84) \<and> list_all is_space W"
    using L by simp
  then show ?thesis by blast
qed

text \<open>What stands before the closing \<open>>\<close> of a head construct: a quote, white space or a slash.\<close>

lemma head_anchor_end_shape:
  assumes "head_anchor_end pre"
  shows "\<exists>Q x V. pre = Q @ [x] @ 62 # V \<and> (x = 34 \<or> x = 47 \<or> is_space x) \<and> list_all is_space V"
proof -
  from assms obtain A B W sl W2 where pre: "pre = A @ (MAT @ B @ REL @ W @ sl @ [62]) @ W2"
      and W: "list_all is_space W" and sl: "sl = [] \<or> sl = [47]" and W2: "list_all is_space W2"
    unfolding head_anchor_end_def head_construct_def by blast
  obtain R' where R': "REL = R' @ [34]" using REL_snoc by blast
  have "\<exists>Q x. MAT @ B @ REL @ W @ sl = Q @ [x] \<and> (x = 34 \<or> x = 47 \<or> is_space x)"
  proof (cases "sl = []")
    case False
    then have "MAT @ B @ REL @ W @ sl = (MAT @ B @ REL @ W) @ [47]" using sl by simp
    then show ?thesis by blast
  next
    case True
    show ?thesis
    proof (cases "W = []")
      case True
      then have "MAT @ B @ REL @ W @ sl = (MAT @ B @ R') @ [34]" using \<open>sl = []\<close> R' by simp
      then show ?thesis by blast
    next
      case False
      then obtain W' w where "W = W' @ [w]" by (metis rev_exhaust)
      then have "MAT @ B @ REL @ W @ sl = (MAT @ B @ REL @ W') @ [w] \<and> is_space w"
        using \<open>sl = []\<close> W by simp
      then show ?thesis by blast
    qed
  qed
  then obtain Q x where "MAT @ B @ REL @ W @ sl = Q @ [x]" "x = 34 \<or> x = 47 \<or> is_space x"
    by blast
  then have "pre = (A @ Q) @ [x] @ 62 # W2" using pre by simp
  then show ?thesis using \<open>x = 34 \<or> x = 47 \<or> is_space x\<close> W2 by blast
qed

lemma anchor_ends_differ:
  assumes "head_anchor_end L" "script_close_end L"
  shows False
proof -
  from head_anchor_end_shape [OF assms(1)] obtain Q x V where
    1: "L = (Q @ [x]) @ 62 # V" "x = 34 \<or> x = 47 \<or> is_space x" "list_all is_space V" by auto
  from script_close_end_shape [OF assms(2)] obtain Q' t V' where
    2: "L = (Q' @ [t]) @ 62 # V'" "t = 116 \<or> t = 84" "list_all is_space V'" by auto
  have "Q @ [x] = Q' @ [t]"
    using trailing_ws_unique [of "Q @ [x]" 62 V "Q' @ [t]" 62 V'] 1 2 not_space_misc(1) by metis
  then have "x = t" by simp
  then show False using 1(2) 2(2) by (auto simp: is_space_def)
qed

lemmas snippet_eval = apart_def JS_SNIPPET_def CSS_SNIPPET_def THEME_SCRIPT_def THEME_RESOURCES_def
  MAT_def REL_def NL_def str_def THEME_RESOURCES_PATTERN_def THEME_SCRIPT_PATTERN_def

lemma apart_JS_MAT: "apart JS_SNIPPET MAT"
  by (simp add: snippet_eval)

lemma apart_JS_REL: "apart JS_SNIPPET REL"
  by (simp add: snippet_eval)

lemma apart_CSS_TSP: "apart CSS_SNIPPET THEME_SCRIPT_PATTERN"
  by (simp add: snippet_eval)

lemma apart_more: "apart CSS_SNIPPET THEME_RESOURCES_PATTERN" "apart JS_SNIPPET THEME_RESOURCES_PATTERN"
  "apart JS_SNIPPET THEME_SCRIPT_PATTERN"
  by (simp_all add: snippet_eval)

lemma not_in_snippet: "\<not> sublist MAT JS_SNIPPET" "\<not> sublist REL JS_SNIPPET"
  "\<not> sublist THEME_SCRIPT_PATTERN CSS_SNIPPET" "\<not> sublist THEME_RESOURCES_PATTERN JS_SNIPPET"
  by (simp_all add: snippet_eval sublist_code)

lemma in_snippet: "sublist THEME_RESOURCES_PATTERN CSS_SNIPPET" "sublist THEME_SCRIPT_PATTERN JS_SNIPPET"
  by (simp_all add: snippet_eval sublist_code)

lemma JS_SNIPPET_hd: "JS_SNIPPET \<noteq> [] \<and> hd JS_SNIPPET = 10"
  by (simp add: snippet_eval)

lemma CSS_SNIPPET_hd: "CSS_SNIPPET \<noteq> [] \<and> hd CSS_SNIPPET = 10"
  by (simp add: snippet_eval)

lemma no_nl: "10 \<notin> set MAT" "10 \<notin> set REL" "10 \<notin> set THEME_SCRIPT_PATTERN"
  "10 \<notin> set THEME_RESOURCES_PATTERN"
  by (simp_all add: snippet_eval)

lemma no_lt: "60 \<notin> set THEME_SCRIPT_PATTERN" "60 \<notin> set THEME_RESOURCES_PATTERN"
  by (simp_all add: snippet_eval)

lemma append_eq_cases:
  assumes "xs @ ys = zs @ ts"
  obtains (left) us where "xs = zs @ us" "us @ ys = ts"
    | (right) us where "xs @ us = zs" "ys = us @ ts" "us \<noteq> []"
proof -
  from assms have "(\<exists>us. xs = zs @ us \<and> us @ ys = ts) \<or> (\<exists>us. xs @ us = zs \<and> ys = us @ ts)"
    unfolding append_eq_append_conv2 by blast
  then show ?thesis
  proof
    assume "\<exists>us. xs = zs @ us \<and> us @ ys = ts"
    then show ?thesis using left by blast
  next
    assume "\<exists>us. xs @ us = zs \<and> ys = us @ ts"
    then obtain us where us: "xs @ us = zs" "ys = us @ ts" by blast
    show ?thesis
    proof (cases "us = []")
      case True
      then have "xs = zs @ []" "[] @ ys = ts" using us by simp_all
      then show ?thesis using left by blast
    next
      case False
      then show ?thesis using right us by blast
    qed
  qed
qed

lemma head_anchor_end_last:
  assumes "head_anchor_end pre"
  shows "pre \<noteq> [] \<and> (last pre = 62 \<or> is_space (last pre))"
proof -
  from head_anchor_end_shape [OF assms] obtain Q x V where
    p: "pre = (Q @ [x]) @ 62 # V" "list_all is_space V" by auto
  show ?thesis
  proof (cases "V = []")
    case True
    then show ?thesis using p by simp
  next
    case False
    then have "last pre = last V" "last V \<in> set V" using p(1) by simp_all
    then show ?thesis using p False by (auto simp: list_all_iff)
  qed
qed

text \<open>Inserting the CSS snippet after a head anchor does not take the body anchor away.\<close>

lemma body_anchor_kept:
  assumes "has_body_anchor (pre @ rest)" "head_anchor_end pre" "rest = [] \<or> \<not> is_space (hd rest)"
  shows "has_body_anchor (pre @ T @ rest)"
proof -
  from assms(1) obtain A X W r where s: "pre @ rest = (A @ X @ W) @ r"
      and X: "ci_match SCRIPT_CLOSE X" and W: "list_all is_space W" and r: "body_close_first r"
    unfolding has_body_anchor_def script_close_def by auto
  have sc: "script_close (X @ W)" unfolding script_close_def using X W by blast
  note last = head_anchor_end_last [OF assms(2)]
  from s show ?thesis
  proof (cases rule: append_eq_cases)
    case (left us)
    note 1 = left
    show ?thesis
    proof (cases "us = []")
      case True
      then have "script_close_end pre" unfolding script_close_end_def using 1(1) sc
        by (metis append.assoc append_Nil2)
      then show ?thesis using anchor_ends_differ [OF assms(2)] by blast
    next
      case False
      from r obtain Y g where Y: "r = Y @ g" "ci_match BODY_CLOSE Y"
        unfolding body_close_first_def by blast
      have "us @ rest = Y @ g" using 1(2) Y(1) by simp
      then show ?thesis
      proof (cases rule: append_eq_cases)
        case (left vs)
        then have "pre @ T @ rest = A @ (X @ W) @ (Y @ vs @ T @ rest)"
          using \<open>pre = (A @ X @ W) @ us\<close> by simp
        moreover have "body_close_first (Y @ vs @ T @ rest)"
          unfolding body_close_first_def using Y(2) by blast
        ultimately show ?thesis unfolding has_body_anchor_def using sc by blast
      next
        case (right vs)
        note 2 = right(1,3)
        from ci_match_proper_prefix [of BODY_CLOSE us vs] Y(2) 2 False
        obtain p where "p \<in> set (butlast BODY_CLOSE)" "ci_eq p (last us)" by auto
        then have "last us \<noteq> 62 \<and> \<not> is_space (last us)" using body_inner_chars by blast
        moreover have "last pre = last us" using \<open>pre = (A @ X @ W) @ us\<close> False by simp
        ultimately show ?thesis using last by auto
      qed
    qed
  next
    case (right us)
    note 2 = right
    have hd: "\<not> is_space (hd us)" using assms(3) 2(2,3) by (cases us) auto
    have "A @ (X @ W) = pre @ us" using 2(1) by simp
    then show ?thesis
    proof (cases rule: append_eq_cases)
      case (left vs)
      then have "pre @ T @ rest = (pre @ T @ vs) @ (X @ W) @ r" using 2(2) by simp
      then show ?thesis unfolding has_body_anchor_def using sc r by blast
    next
      case (right vs)
      note 3 = right
      have "vs @ us = X @ W" using 3(2) by simp
      then show ?thesis
      proof (cases rule: append_eq_cases)
        case (left ws)
        then have "hd us \<in> set W" using \<open>us \<noteq> []\<close> by (cases us) auto
        then show ?thesis using W hd by (auto simp: list_all_iff)
      next
        case (right ws)
        note 2 = right
        from ci_match_proper_prefix [of SCRIPT_CLOSE vs ws] X 2 \<open>vs \<noteq> []\<close>
        obtain p where "p \<in> set (butlast SCRIPT_CLOSE)" "ci_eq p (last vs)" by auto
        then have "last vs \<noteq> 62 \<and> \<not> is_space (last vs)" using script_inner_chars by blast
        moreover have "last pre = last vs" using 3(1,3) by auto
        ultimately show ?thesis using last by auto
      qed
    qed
  qed
qed

text \<open>Inserting the script snippet before a body anchor does not make a head anchor.\<close>

lemma head_anchor_not_made:
  assumes "has_head_anchor (L @ JS_SNIPPET @ R)" "script_close_end L"
  shows "has_head_anchor (L @ R)"
proof -
  from assms(1) obtain A' B W sl g where
    s: "L @ JS_SNIPPET @ R = A' @ (MAT @ B @ REL @ W @ sl @ [62]) @ g"
    and W: "list_all is_space W" and sl: "sl = [] \<or> sl = [47]"
    unfolding has_head_anchor_def head_construct_def by blast
  have hc: "head_construct (MAT @ B' @ REL @ W @ sl @ [62])" for B'
    unfolding head_construct_def using W sl by blast
  have hdM: "hd JS_SNIPPET \<notin> set MAT" and hdR: "hd JS_SNIPPET \<notin> set REL"
    using JS_SNIPPET_hd no_nl by simp_all
  have ne: "JS_SNIPPET \<noteq> []" using JS_SNIPPET_hd by simp
  have sM: "L @ JS_SNIPPET @ R = A' @ MAT @ (B @ REL @ W @ sl @ [62] @ g)" using s by simp
  have sR: "L @ JS_SNIPPET @ R = (A' @ MAT @ B) @ REL @ (W @ sl @ [62] @ g)" using s by simp
  from block_split_insert [OF sR ne hdR apart_JS_REL not_in_snippet(2)] show ?thesis
  proof
    assume "\<exists>a. R = a @ REL @ W @ sl @ [62] @ g \<and> A' @ MAT @ B = L @ JS_SNIPPET @ a"
    then obtain a where a: "R = a @ REL @ W @ sl @ [62] @ g" "A' @ MAT @ B = L @ JS_SNIPPET @ a"
      by blast
    from block_split_insert [OF sM ne hdM apart_JS_MAT not_in_snippet(1)] show ?thesis
    proof
      assume "\<exists>b. L = A' @ MAT @ b \<and> B @ REL @ W @ sl @ [62] @ g = b @ JS_SNIPPET @ R"
      then obtain b where "L = A' @ MAT @ b" by blast
      then have "L @ R = A' @ (MAT @ (b @ a) @ REL @ W @ sl @ [62]) @ g" using a(1) by simp
      then show ?thesis unfolding has_head_anchor_def using hc by blast
    next
      assume "\<exists>a. R = a @ MAT @ B @ REL @ W @ sl @ [62] @ g \<and> A' = L @ JS_SNIPPET @ a"
      then obtain a' where "R = a' @ MAT @ B @ REL @ W @ sl @ [62] @ g" by blast
      then have "L @ R = (L @ a') @ (MAT @ B @ REL @ W @ sl @ [62]) @ g" by simp
      then show ?thesis unfolding has_head_anchor_def using hc by blast
    qed
  next
    assume "\<exists>b. L = (A' @ MAT @ B) @ REL @ b \<and> W @ sl @ [62] @ g = b @ JS_SNIPPET @ R"
    then obtain b where b: "L = (A' @ MAT @ B) @ REL @ b"
        "(W @ sl @ [62]) @ g = b @ JS_SNIPPET @ R"
      by auto
    from b(2) show ?thesis
    proof (cases rule: append_eq_cases)
      case (right us)
      then have "L @ R = A' @ (MAT @ B @ REL @ W @ sl @ [62]) @ (us @ R)" using b(1) by auto
      then show ?thesis unfolding has_head_anchor_def using hc by blast
    next
      case (left us)
      show ?thesis
      proof (cases "us = []")
        case True
        then have "L @ R = A' @ (MAT @ B @ REL @ W @ sl @ [62]) @ R" using b(1) left(1) by simp
        then show ?thesis unfolding has_head_anchor_def using hc by blast
      next
        case False
        then obtain us' u where us: "us = us' @ [u]" by (metis rev_exhaust)
        then have e: "W @ sl = b @ us'" using left(1) by simp
        obtain R' where R': "REL = R' @ [34]" using REL_snoc by blast
        have "\<exists>Q x V. L = Q @ x # V \<and> (x = 34 \<or> x = 47) \<and> list_all is_space V"
        proof (cases "sl = [] \<or> us' \<noteq> []")
          case True
          have "\<exists>c. W = b @ c"
          proof (cases "sl = []")
            case True
            then show ?thesis using e by simp
          next
            case False
            then obtain us'' where "us' = us'' @ [47]" using sl e True
              by (metis append_butlast_last_id last_appendR last_snoc)
            then have "W = b @ us''" using e sl False by simp
            then show ?thesis by blast
          qed
          then have "list_all is_space b" using W by auto
          moreover have "L = (A' @ MAT @ B @ R') @ 34 # b" using b(1) R' by simp
          ultimately show ?thesis by blast
        next
          case False
          then have "b = W @ [47]" using e sl by auto
          then have "L = (A' @ MAT @ B @ REL @ W) @ 47 # [] \<and> (47 = (34::nat) \<or> 47 = (47::nat)) \<and>
              list_all is_space []"
            using b(1) by simp
          then show ?thesis by blast
        qed
        then obtain Q x V where 1: "L = Q @ x # V" "x = 34 \<or> x = 47" "list_all is_space V"
          by blast
        from script_close_end_shape [OF assms(2)] obtain Q' t V' where
          2: "L = (Q' @ [t]) @ 62 # V'" "list_all is_space V'" by auto
        have "\<not> is_space x" using 1(2) not_space_misc by auto
        then have "x = 62"
          using trailing_ws_unique [of Q x V "Q' @ [t]" 62 V'] 1 2 not_space_misc(1) by metis
        then show ?thesis using 1(2) by simp
      qed
    qed
  qed
qed

lemma count_occ_0: "M \<noteq> [] \<Longrightarrow> count_occ M s = 0 \<longleftrightarrow> \<not> sublist M s"
  by (induction s) (auto simp: sublist_Cons_right)

lemma count_occ_append:
  assumes "M \<noteq> []"
    "\<And>U V. U \<noteq> [] \<Longrightarrow> V \<noteq> [] \<Longrightarrow> M = U @ V \<Longrightarrow> suffix U xs \<Longrightarrow> prefix V ys \<Longrightarrow> False"
  shows "count_occ M (xs @ ys) = count_occ M xs + count_occ M ys"
  using assms(2)
proof (induction xs)
  case Nil
  then show ?case using assms(1) by simp
next
  case (Cons x xs)
  have IH: "count_occ M (xs @ ys) = count_occ M xs + count_occ M ys"
  proof (rule Cons.IH)
    fix U V :: str
    assume "U \<noteq> []" "V \<noteq> []" "M = U @ V" "suffix U xs" "prefix V ys"
    then show False using Cons.prems [of U V] by (simp add: suffix_Cons)
  qed
  have "prefix M (x # xs @ ys) \<longleftrightarrow> prefix M (x # xs)"
  proof
    assume "prefix M (x # xs @ ys)"
    then have "prefix M ((x # xs) @ ys)" by simp
    then consider "prefix M (x # xs)" | V where "M = (x # xs) @ V" "prefix V ys"
      unfolding prefix_append by blast
    then show "prefix M (x # xs)"
    proof cases
      case 1
      then show ?thesis .
    next
      case 2
      show ?thesis
      proof (cases "V = []")
        case True
        then show ?thesis using 2 by simp
      next
        case False
        then show ?thesis using Cons.prems [of "x # xs" V] 2 by simp
      qed
    qed
  next
    assume "prefix M (x # xs)"
    then show "prefix M (x # xs @ ys)" by (metis append_Cons prefix_prefix)
  qed
  then show ?case using IH by simp
qed

lemma count_occ_append_hd:
  assumes "M \<noteq> []" "ys \<noteq> []" "hd ys \<notin> set M"
  shows "count_occ M (xs @ ys) = count_occ M xs + count_occ M ys"
proof (rule count_occ_append [OF assms(1)])
  fix U V :: str
  assume "V \<noteq> []" "M = U @ V" "prefix V ys"
  then have "hd ys \<in> set M" by (cases V) (auto simp: prefix_def)
  then show False using assms(3) by blast
qed

lemma count_occ_append_apart:
  assumes "M \<noteq> []" "apart xs M"
  shows "count_occ M (xs @ ys) = count_occ M xs + count_occ M ys"
proof (rule count_occ_append [OF assms(1)])
  fix U V :: str
  assume "U \<noteq> []" "M = U @ V" "suffix U xs"
  then have "\<not> prefix U M" "prefix U M" using apartD [OF assms(2), of U] by simp_all
  then show False by blast
qed

lemma count_occ_insert:
  assumes "M \<noteq> []" "T \<noteq> []" "hd T \<notin> set M" "apart T M"
  shows "count_occ M (L @ T @ R) = count_occ M L + count_occ M T + count_occ M R"
proof -
  have "T @ R \<noteq> []" "hd (T @ R) \<notin> set M" using assms(2,3) by simp_all
  then have "count_occ M (L @ T @ R) = count_occ M L + count_occ M (T @ R)"
    using count_occ_append_hd [OF assms(1)] by blast
  then show ?thesis using count_occ_append_apart [OF assms(1,4)] by simp
qed

lemma ci_compat_prefix:
  "ci_match P Y \<Longrightarrow> vs @ rest = Y @ g \<Longrightarrow> ci_compat P vs"
proof (induction P vs arbitrary: Y rule: ci_compat.induct)
  case (1 s)
  then show ?case by simp
next
  case (2 p P)
  then show ?case by simp
next
  case (3 p P c cs)
  from 3(2) obtain y Y' where Y: "Y = y # Y'" "ci_eq p y" "ci_match P Y'"
    by (auto simp: ci_match_def list_all2_Cons1)
  then have "c = y" "cs @ rest = Y' @ g" using 3(3) by simp_all
  then show ?case using 3(1) Y by simp
qed

lemma CSS_no_body:
  "list_all (\<lambda>vs. vs = [] \<or> \<not> ci_compat BODY_CLOSE vs) (suffixes CSS_SNIPPET)"
  by (simp add: snippet_eval BODY_CLOSE_def ci_eq_def)

lemma counts_in_snippets:
  "count_occ THEME_RESOURCES_PATTERN CSS_SNIPPET = 1"
  "count_occ THEME_SCRIPT_PATTERN CSS_SNIPPET = 0"
  "count_occ THEME_RESOURCES_PATTERN JS_SNIPPET = 0"
  "count_occ THEME_SCRIPT_PATTERN JS_SNIPPET = 1"
  by (simp_all add: snippet_eval)

lemma markers_nonempty: "THEME_RESOURCES_PATTERN \<noteq> []" "THEME_SCRIPT_PATTERN \<noteq> []"
  by (simp_all add: snippet_eval)

lemma apply_insertions_cases:
  "apply_insertions content =
     (case insert_css content of
        None \<Rightarrow> (case insert_js content of
                   None \<Rightarrow> (content, False, [])
                 | Some c2 \<Rightarrow> (c2, True, [JsAgregado]))
      | Some c1 \<Rightarrow> (case insert_js c1 of
                     None \<Rightarrow> (c1, True, [CssAgregado])
                   | Some c2 \<Rightarrow> (c2, True, [CssAgregado, JsAgregado])))"
  by (simp add: apply_insertions_def split: option.splits)

lemma body_close_first_hd:
  assumes "body_close_first r"
  shows "r \<noteq> [] \<and> hd r = 60"
proof -
  from assms obtain Y g where "r = Y @ g" "ci_match BODY_CLOSE Y"
    unfolding body_close_first_def by blast
  then show ?thesis using ci_match_lt [of Y] by auto
qed

text \<open>The two insertions on a text with both anchors and neither marker.\<close>

lemma both_insertions:
  assumes "has_head_anchor content" "has_body_anchor content"
    "\<not> sublist THEME_RESOURCES_PATTERN content" "\<not> sublist THEME_SCRIPT_PATTERN content"
  shows "\<exists>final A B C. apply_insertions content = (final, True, [CssAgregado, JsAgregado]) \<and>
     content = A @ B @ C \<and>
     (final = A @ CSS_SNIPPET @ B @ JS_SNIPPET @ C \<or> final = A @ JS_SNIPPET @ B @ CSS_SNIPPET @ C) \<and>
     count_occ THEME_RESOURCES_PATTERN final = 1 \<and> count_occ THEME_SCRIPT_PATTERN final = 1"
proof -
  from assms(1) obtain c1 where c1: "insert_css content = Some c1"
    using insert_css_None [of content] by auto
  from insert_css_Some [OF c1] obtain A0 Z W2 rest where
    h: "content = (A0 @ Z @ W2) @ rest" "head_construct Z" "list_all is_space W2"
      "rest = [] \<or> \<not> is_space (hd rest)" "c1 = (A0 @ Z @ W2) @ CSS_SNIPPET @ rest"
    by auto
  define pre where "pre = A0 @ Z @ W2"
  have content: "content = pre @ rest" and c1_eq: "c1 = pre @ CSS_SNIPPET @ rest"
    using h(1,5) pre_def by simp_all
  have pre: "head_anchor_end pre" unfolding head_anchor_end_def pre_def using h(2,3) by blast
  have ba: "has_body_anchor c1"
    unfolding c1_eq using body_anchor_kept [of pre rest CSS_SNIPPET] assms(2) pre h(4) content
    by simp
  have nts: "\<not> sublist THEME_SCRIPT_PATTERN c1"
    unfolding c1_eq
    using sublist_insert [of THEME_SCRIPT_PATTERN pre CSS_SNIPPET rest]
      CSS_SNIPPET_hd no_nl(3) apart_CSS_TSP not_in_snippet(3) assms(4) content by auto
  from ba nts obtain final where final: "insert_js c1 = Some final"
    using insert_js_None [of c1] by auto
  from insert_js_Some [OF final] obtain A1 Z1 r where
    b: "c1 = (A1 @ Z1) @ r" "script_close Z1" "body_close_first r"
      "final = (A1 @ Z1) @ JS_SNIPPET @ r"
    by auto
  define L where "L = A1 @ Z1"
  have c1_eq2: "c1 = L @ r" and final_eq: "final = L @ JS_SNIPPET @ r"
    using b(1,4) L_def by simp_all
  have r: "r \<noteq> []" "hd r = 60" using body_close_first_hd [OF b(3)] by simp_all
  have ap: "apply_insertions content = (final, True, [CssAgregado, JsAgregado])"
    using c1 final by (simp add: apply_insertions_cases)
  \<comment> \<open>the shape of the result\<close>
  have shape: "\<exists>A B C. content = A @ B @ C \<and>
     (final = A @ CSS_SNIPPET @ B @ JS_SNIPPET @ C \<or> final = A @ JS_SNIPPET @ B @ CSS_SNIPPET @ C)"
  proof -
    have "pre @ (CSS_SNIPPET @ rest) = L @ r" using c1_eq c1_eq2 by simp
    then show ?thesis
    proof (cases rule: append_eq_cases)
      case (left us)
      then have "content = L @ us @ rest \<and> final = L @ JS_SNIPPET @ us @ CSS_SNIPPET @ rest"
        using content final_eq by auto
      then show ?thesis by blast
    next
      case (right us)
      have "us @ r = CSS_SNIPPET @ rest" using right(2) by simp
      then show ?thesis
      proof (cases rule: append_eq_cases)
        case (left vs)
        then have "content = pre @ vs @ r \<and> final = pre @ CSS_SNIPPET @ vs @ JS_SNIPPET @ r"
          using content final_eq right(1) by auto
        then show ?thesis by blast
      next
        case (right vs)
        from b(3) obtain Y g where Y: "r = Y @ g" "ci_match BODY_CLOSE Y"
          unfolding body_close_first_def by blast
        have "vs @ rest = Y @ g" using right(2) Y(1) by simp
        then have "ci_compat BODY_CLOSE vs" using ci_compat_prefix [OF Y(2)] by blast
        moreover have "suffix vs CSS_SNIPPET" using right(1) by (metis suffixI)
        ultimately show ?thesis
          using CSS_no_body right(3) by (auto simp: list_all_iff in_set_suffixes)
      qed
    qed
  qed
  \<comment> \<open>the markers\<close>
  have cnt: "count_occ M final = count_occ M CSS_SNIPPET + count_occ M JS_SNIPPET"
    if M: "M \<noteq> []" "10 \<notin> set M" "60 \<notin> set M" "apart CSS_SNIPPET M" "apart JS_SNIPPET M"
      "\<not> sublist M content"
    for M
  proof -
    have "\<not> sublist M pre" "\<not> sublist M rest"
      using M(6) content by (metis sublist_order.order.trans sublist_append_rightI,
          metis sublist_order.order.trans sublist_append_leftI)
    then have 0: "count_occ M pre = 0" "count_occ M rest = 0" using count_occ_0 [OF M(1)] by simp_all
    have 1: "count_occ M c1 = count_occ M CSS_SNIPPET"
      unfolding c1_eq using count_occ_insert [OF M(1) _ _ M(4), of pre rest] CSS_SNIPPET_hd M(2) 0
      by simp
    have 2: "count_occ M c1 = count_occ M L + count_occ M r"
      unfolding c1_eq2 using count_occ_append_hd [OF M(1) r(1)] r(2) M(3) by simp
    have "count_occ M final = count_occ M L + count_occ M JS_SNIPPET + count_occ M r"
      unfolding final_eq using count_occ_insert [OF M(1) _ _ M(5), of L r] JS_SNIPPET_hd M(2)
      by simp
    then show ?thesis using 1 2 by simp
  qed
  have "count_occ THEME_RESOURCES_PATTERN final = 1"
    using cnt [of THEME_RESOURCES_PATTERN] markers_nonempty no_nl no_lt apart_more assms(3)
      counts_in_snippets by simp
  moreover have "count_occ THEME_SCRIPT_PATTERN final = 1"
    using cnt [of THEME_SCRIPT_PATTERN] markers_nonempty no_nl no_lt apart_more apart_CSS_TSP
      assms(4) counts_in_snippets by simp
  ultimately show ?thesis using ap shape by blast
qed

text \<open>What \<open>apply_insertions\<close> returns either holds the resource marker or is left alone by
  \<open>apply_insertions\<close>.\<close>

lemma apply_insertions_settled:
  assumes "apply_insertions content = (c, m, out)"
  shows "sublist THEME_RESOURCES_PATTERN c \<or> apply_insertions c = (c, False, [])"
proof (cases "insert_css content")
  case (Some c1)
  from insert_css_Some [OF Some] obtain pre rest where "c1 = pre @ CSS_SNIPPET @ rest" by blast
  then have m1: "sublist THEME_RESOURCES_PATTERN c1"
    using in_snippet(1) by (metis sublist_order.order.trans sublist_appendI)
  show ?thesis
  proof (cases "insert_js c1")
    case None
    then show ?thesis using assms Some m1 by (simp add: apply_insertions_cases)
  next
    case final: (Some final)
    from insert_js_Some [OF final] obtain A1 Z1 r where
      b: "c1 = (A1 @ Z1) @ r" "body_close_first r" "final = (A1 @ Z1) @ JS_SNIPPET @ r"
      by auto
    have "sublist THEME_RESOURCES_PATTERN ((A1 @ Z1) @ JS_SNIPPET @ r)"
      using sublist_keep [of THEME_RESOURCES_PATTERN "A1 @ Z1" r JS_SNIPPET]
        m1 b(1) body_close_first_hd [OF b(2)] no_lt(2) by simp
    then show ?thesis using assms Some final b(3) by (simp add: apply_insertions_cases)
  qed
next
  case None
  show ?thesis
  proof (cases "insert_js content")
    case n: None
    then show ?thesis using assms None by (simp add: apply_insertions_cases)
  next
    case (Some c2)
    from insert_js_Some [OF Some] obtain A1 Z1 r where
      b: "content = (A1 @ Z1) @ r" "script_close Z1" "c2 = (A1 @ Z1) @ JS_SNIPPET @ r"
      by auto
    have c: "c = c2" using assms None Some by (simp add: apply_insertions_cases)
    have sce: "script_close_end (A1 @ Z1)" unfolding script_close_end_def using b(2) by blast
    have "\<not> has_head_anchor content" using None insert_css_None by blast
    then have "\<not> has_head_anchor c2"
      unfolding b(3) using head_anchor_not_made [OF _ sce, of r] b(1) by auto
    then have 1: "insert_css c2 = None" using insert_css_None by blast
    have "sublist THEME_SCRIPT_PATTERN c2"
      unfolding b(3) using in_snippet(2) by (metis sublist_order.order.trans sublist_appendI)
    then have 2: "insert_js c2 = None" using insert_js_None by blast
    show ?thesis using c 1 2 by (simp add: apply_insertions_cases)
  qed
qed

lemma apply_insertions_unmodified:
  "apply_insertions content = (c, False, out) \<Longrightarrow> c = content \<and> out = []"
  by (auto simp: apply_insertions_cases split: option.splits)

section \<open>The substitution, occurrence by occurrence\<close>

lemma fix_pattern_extend: "fix_pattern t = Some r \<Longrightarrow> fix_pattern (t @ x) = Some (r @ x)"
proof -
  assume "fix_pattern t = Some r"
  then obtain W where "fix_occ t W r" using fix_pattern_sound by blast
  then have "fix_occ (t @ x) W (r @ x)" by (simp add: fix_occ_def)
  then show ?thesis by (rule fix_pattern_complete)
qed

lemma first_t_split:
  assumes "cs @ 116 # X = N @ 116 # r" "116 \<notin> set N"
  shows "cs = N \<or> (\<exists>cs'. cs = N @ 116 # cs')"
  using assms(1)
proof (cases rule: append_eq_cases)
  case (left us)
  show ?thesis
  proof (cases us)
    case Nil
    then show ?thesis using left by simp
  next
    case (Cons u us')
    then have "u = 116" using left(2) by simp
    then show ?thesis using left(1) Cons by simp
  qed
next
  case (right us)
  then obtain u us' where "us = u # us'" by (cases us) auto
  then have "u = 116" "u \<in> set N" using right by auto
  then show ?thesis using assms(2) by blast
qed

text \<open>Where the text has no fused tags, an occurrence of the pattern is rewritten in place.\<close>

lemma re_sub_fix_in_place:
  assumes "list_all is_space W" "10 \<in> set W"
  shows "\<not> sublist FUSED (P @ DIV_CLOSE @ W @ SCRIPT_OPEN @ Q)
         \<Longrightarrow> re_sub_fix (P @ DIV_CLOSE @ W @ SCRIPT_OPEN @ Q) =
             re_sub_fix P @ FIX_REPL @ re_sub_fix Q"
proof (induction P rule: re_sub_fix.induct)
  case 1
  have "fix_occ (DIV_CLOSE @ W @ SCRIPT_OPEN @ Q) W Q" using assms by (simp add: fix_occ_def)
  then have "fix_pattern (116 # DIV_TAIL @ W @ SCRIPT_OPEN @ Q) = Some Q"
    using fix_pattern_complete by (simp add: DIV_CLOSE_Cons)
  then show ?case by (simp add: DIV_CLOSE_Cons)
next
  case (2 c cs)
  let ?Z = "DIV_CLOSE @ W @ SCRIPT_OPEN @ Q"
  show ?case
  proof (cases "fix_pattern (c # cs)")
    case (Some rest)
    then obtain W0 where "fix_occ (c # cs) W0 rest" using fix_pattern_sound by blast
    then have ccs: "c # cs = (DIV_CLOSE @ W0 @ SCRIPT_OPEN) @ rest" by (simp add: fix_occ_def)
    have "\<not> sublist FUSED (rest @ ?Z)"
    proof
      assume "sublist FUSED (rest @ ?Z)"
      then have "sublist FUSED ((DIV_CLOSE @ W0 @ SCRIPT_OPEN) @ (rest @ ?Z) @ [])"
        by (rule sublist_mono_right)
      then show False using "2.prems" ccs by (metis append.assoc append_Nil2)
    qed
    then have IH: "re_sub_fix (rest @ ?Z) = re_sub_fix rest @ FIX_REPL @ re_sub_fix Q"
      using "2.IH"(2) [OF Some] by blast
    have "fix_pattern ((c # cs) @ ?Z) = Some (rest @ ?Z)" using Some by (rule fix_pattern_extend)
    then have "re_sub_fix ((c # cs) @ ?Z) = FIX_REPL @ re_sub_fix (rest @ ?Z)" by simp
    then show ?thesis using IH Some by simp
  next
    case None
    have n: "fix_pattern ((c # cs) @ ?Z) = None"
    proof (rule ccontr)
      assume "fix_pattern ((c # cs) @ ?Z) \<noteq> None"
      then obtain r' where "fix_pattern ((c # cs) @ ?Z) = Some r'" by blast
      then obtain W1 where W1: "fix_occ ((c # cs) @ ?Z) W1 r'" using fix_pattern_sound by blast
      then have e: "c # (cs @ 116 # DIV_TAIL @ W @ SCRIPT_OPEN @ Q) =
          116 # (DIV_TAIL @ W1 @ SCRIP) @ 116 # r'"
        and sp: "list_all is_space W1" and nl: "10 \<in> set W1"
        by (simp_all add: fix_occ_def DIV_CLOSE_Cons SCRIPT_OPEN_snoc)
      have nt: "116 \<notin> set (DIV_TAIL @ W1 @ SCRIP)"
        using no_t_DIV_TAIL no_t_SCRIP sp not_space_t by (auto simp: list_all_iff)
      have c: "c = 116" using e by simp
      have "cs @ 116 # (DIV_TAIL @ W @ SCRIPT_OPEN @ Q) = (DIV_TAIL @ W1 @ SCRIP) @ 116 # r'"
        using e by simp
      from first_t_split [OF this nt] show False
      proof
        assume "cs = DIV_TAIL @ W1 @ SCRIP"
        then have "(c # cs) @ ?Z = (DIV_CLOSE @ W1) @ (SCRIP @ DIV_CLOSE) @ (W @ SCRIPT_OPEN @ Q)"
          using c by (simp add: DIV_CLOSE_Cons)
        then have "sublist FUSED ((c # cs) @ ?Z)"
          unfolding FUSED_eq sublist_def by blast
        then show False using "2.prems" by simp
      next
        assume "\<exists>cs'. cs = (DIV_TAIL @ W1 @ SCRIP) @ 116 # cs'"
        then obtain cs' where "cs = (DIV_TAIL @ W1 @ SCRIP) @ 116 # cs'" by blast
        then have "fix_occ (c # cs) W1 cs'"
          using c sp nl by (simp add: fix_occ_def DIV_CLOSE_Cons SCRIPT_OPEN_snoc)
        then have "fix_pattern (c # cs) = Some cs'" by (rule fix_pattern_complete)
        then show False using None by simp
      qed
    qed
    have "\<not> sublist FUSED (cs @ ?Z)" using "2.prems" by (simp add: sublist_Cons_right)
    then have IH: "re_sub_fix (cs @ ?Z) = re_sub_fix cs @ FIX_REPL @ re_sub_fix Q"
      using "2.IH"(1) [OF None] by blast
    have "re_sub_fix ((c # cs) @ ?Z) = c # re_sub_fix (cs @ ?Z)" using n by simp
    then show ?thesis using IH None by simp
  qed
qed

text \<open>A text in which the pattern matches nowhere is left as it is.\<close>

lemma re_search_Cons_None:
  "re_search m (c # cs) = None \<longleftrightarrow> m (c # cs) = None \<and> re_search m cs = None"
  by (simp split: option.splits)

lemma re_sub_fix_idle: "re_search fix_pattern s = None \<Longrightarrow> re_sub_fix s = s"
proof (induction s rule: re_sub_fix.induct)
  case 1
  then show ?case by simp
next
  case (2 c cs)
  from "2.prems" have n: "fix_pattern (c # cs) = None" and r: "re_search fix_pattern cs = None"
    unfolding re_search_Cons_None by simp_all
  show ?case using n "2.IH"(1) [OF n r] by simp
qed

lemma fix_pattern_Nil: "fix_pattern [] = None"
  by (simp add: fix_pattern_def lit_def DIV_CLOSE_def str_def)

text \<open>The first occurrence of the pattern is rewritten in place.\<close>

lemma re_sub_fix_first:
  "re_search fix_pattern s \<noteq> None
   \<Longrightarrow> \<exists>P W Q. s = P @ DIV_CLOSE @ W @ SCRIPT_OPEN @ Q \<and> list_all is_space W \<and> 10 \<in> set W \<and>
         re_search fix_pattern P = None \<and> re_sub_fix s = P @ FIX_REPL @ re_sub_fix Q"
proof (induction s)
  case Nil
  then show ?case by (simp add: fix_pattern_Nil)
next
  case (Cons c cs)
  show ?case
  proof (cases "fix_pattern (c # cs)")
    case (Some rest)
    then obtain W where "fix_occ (c # cs) W rest" using fix_pattern_sound by blast
    then have "c # cs = [] @ DIV_CLOSE @ W @ SCRIPT_OPEN @ rest" "list_all is_space W" "10 \<in> set W"
      by (simp_all add: fix_occ_def)
    moreover have "re_search fix_pattern [] = None" by (simp add: fix_pattern_Nil)
    moreover have "re_sub_fix (c # cs) = [] @ FIX_REPL @ re_sub_fix rest" using Some by simp
    ultimately show ?thesis by blast
  next
    case None
    then have "re_search fix_pattern cs \<noteq> None" using Cons.prems by simp
    from Cons.IH [OF this] obtain P W Q where
      h: "cs = P @ DIV_CLOSE @ W @ SCRIPT_OPEN @ Q" "list_all is_space W" "10 \<in> set W"
        "re_search fix_pattern P = None" "re_sub_fix cs = P @ FIX_REPL @ re_sub_fix Q"
      by blast
    have "fix_pattern (c # P) = None"
    proof (rule ccontr)
      assume "fix_pattern (c # P) \<noteq> None"
      then obtain r where "fix_pattern (c # P) = Some r" by blast
      from fix_pattern_extend [OF this, of "DIV_CLOSE @ W @ SCRIPT_OPEN @ Q"]
      show False using None h(1) by simp
    qed
    then have 1: "re_search fix_pattern (c # P) = None" using h(4) by simp
    have 2: "c # cs = (c # P) @ DIV_CLOSE @ W @ SCRIPT_OPEN @ Q" using h(1) by simp
    have 3: "re_sub_fix (c # cs) = (c # P) @ FIX_REPL @ re_sub_fix Q" using None h(5) by simp
    show ?thesis using 1 2 3 h(2,3) by blast
  qed
qed

section \<open>Files that are settled, and a second run\<close>

lemma settled_cong: "fs1 p = fs p \<Longrightarrow> settled fs1 p = settled fs p"
  by (simp add: settled_def)

lemma update_html_file_unreadable:
  "read_text fs p = None \<Longrightarrow> update_html_file fs p = (Error, fs, [ErrorMsg])"
  by (simp add: update_html_file_def)

lemma update_html_file_unmodified:
  "read_text fs p = Some c \<Longrightarrow> \<not> sublist THEME_RESOURCES_PATTERN c
   \<Longrightarrow> apply_insertions c = (c, False, [])
   \<Longrightarrow> update_html_file fs p = (Skipped, fs, [Procesando p, NoSePudoModificar])"
  by (simp add: update_html_file_def)

lemma update_html_file_unwritable:
  assumes "fs p = Some f" "contents f = Some c" "\<not> writable f"
    "\<not> sublist THEME_RESOURCES_PATTERN c"
  shows "\<exists>st out. update_html_file fs p = (st, fs, out) \<and> st \<noteq> Updated"
proof -
  obtain c' m o1 where a: "apply_insertions c = (c', m, o1)" by (metis prod_cases3)
  have r: "read_text fs p = Some c" using assms(1,2) by (simp add: read_text_def)
  have w: "write_text fs p c' = None" using assms(1,3) by (simp add: write_text_def)
  show ?thesis using r a w assms(4) by (cases m) (simp_all add: update_html_file_def)
qed

lemma settled_noop:
  assumes "settled fs p"
  shows "\<exists>st out. update_html_file fs p = (st, fs, out) \<and> st \<noteq> Updated"
proof (cases "read_text fs p")
  case None
  then show ?thesis using update_html_file_unreadable by blast
next
  case (Some c)
  then obtain f where f: "fs p = Some f" "contents f = Some c" using read_text_Some by blast
  show ?thesis
  proof (cases "sublist THEME_RESOURCES_PATTERN c")
    case True
    then show ?thesis using update_html_file_marker [OF Some] by blast
  next
    case False
    then consider "apply_insertions c = (c, False, [])" | "\<not> writable f"
      using assms f by (auto simp: settled_def)
    then show ?thesis
    proof cases
      case 1
      then show ?thesis using update_html_file_unmodified [OF Some False] by blast
    next
      case 2
      then show ?thesis using update_html_file_unwritable [of fs p f c] f False by blast
    qed
  qed
qed

lemma update_settles:
  assumes "update_html_file fs p = (st, fs1, out)"
  shows "settled fs1 p"
proof (cases "read_text fs p")
  case None
  then have "fs1 = fs" using assms by (simp add: update_html_file_def)
  then show ?thesis using None by (auto simp: settled_def read_text_def split: option.splits)
next
  case (Some c)
  then obtain f where f: "fs p = Some f" "contents f = Some c" using read_text_Some by blast
  show ?thesis
  proof (cases "sublist THEME_RESOURCES_PATTERN c")
    case True
    then have "fs1 = fs" using assms Some by (simp add: update_html_file_def)
    then show ?thesis using f True by (simp add: settled_def)
  next
    case False
    obtain c' m o1 where a: "apply_insertions c = (c', m, o1)" by (metis prod_cases3)
    show ?thesis
    proof (cases m)
      case m: False
      then have "c' = c" "o1 = []" using a apply_insertions_unmodified [of c c' o1] by simp_all
      moreover have "fs1 = fs" using assms Some False a m by (simp add: update_html_file_def)
      ultimately show ?thesis using f a m by (simp add: settled_def)
    next
      case True
      show ?thesis
      proof (cases "writable f")
        case w: False
        then have "write_text fs p c' = None" using f by (simp add: write_text_def)
        then have "fs1 = fs" using assms Some False a True by (simp add: update_html_file_def)
        then show ?thesis using f w by (simp add: settled_def)
      next
        case w: True
        then have "write_text fs p c' = Some (fs(p \<mapsto> f\<lparr>contents := Some c'\<rparr>))"
          using f by (simp add: write_text_existing)
        then have "fs1 = fs(p \<mapsto> f\<lparr>contents := Some c'\<rparr>)"
          using assms Some False a True by (simp add: update_html_file_def)
        then show ?thesis using apply_insertions_settled [OF a] by (auto simp: settled_def)
      qed
    qed
  qed
qed

lemma update_keeps_settled:
  assumes "update_html_file fs q = (st, fs1, out)" "settled fs p"
  shows "settled fs1 p"
proof (cases "p = q")
  case True
  then show ?thesis using update_settles [OF assms(1)] by simp
next
  case False
  then have "fs1 p = fs p" using update_html_file_frame [OF assms(1)] by simp
  then show ?thesis using settled_cong assms(2) by blast
qed

lemma update_all_step:
  "update_all fs (q # files) (u, s, e) =
     (case update_html_file fs q of
        (r, fs1, o1) \<Rightarrow>
          (case update_all fs1 files
                  (if r = Updated then (u + 1, s, e)
                   else if r = Skipped then (u, s + 1, e) else (u, s, e + 1)) of
             (c2, fs2, o2) \<Rightarrow> (c2, fs2, o1 @ o2)))"
  by (simp add: Let_def split: prod.splits)

lemma update_all_settles:
  "update_all fs files counters = (counters', fs', out)
   \<Longrightarrow> (\<forall>p \<in> set files. settled fs' p) \<and> (\<forall>p. settled fs p \<longrightarrow> settled fs' p) \<and>
       (\<forall>p. p \<notin> set files \<longrightarrow> fs' p = fs p)"
proof (induction files arbitrary: fs counters counters' fs' out)
  case Nil
  then show ?case by simp
next
  case (Cons q files)
  obtain u s e where cnt: "counters = (u, s, e)" by (cases counters) auto
  obtain r fs1 o1 where step: "update_html_file fs q = (r, fs1, o1)" by (metis prod_cases3)
  let ?cnt = "if r = Updated then (u + 1, s, e)
              else if r = Skipped then (u, s + 1, e) else (u, s, e + 1)"
  obtain c2 fs2 o2 where rest: "update_all fs1 files ?cnt = (c2, fs2, o2)" by (metis prod_cases3)
  have fs': "fs' = fs2" using Cons.prems cnt step rest by (simp add: update_all_step)
  note IH = Cons.IH [OF rest]
  have q: "settled fs1 q" using update_settles [OF step] .
  have 1: "\<forall>p \<in> set (q # files). settled fs' p" using IH q fs' by auto
  have 2: "\<forall>p. settled fs p \<longrightarrow> settled fs' p"
    using IH update_keeps_settled [OF step] fs' by blast
  have 3: "\<forall>p. p \<notin> set (q # files) \<longrightarrow> fs' p = fs p"
    using IH update_html_file_frame [OF step] fs' by auto
  show ?case using 1 2 3 by blast
qed

lemma update_all_noop:
  "\<forall>p \<in> set files. settled fs p
   \<Longrightarrow> \<exists>s' e' out. update_all fs files (u, s, e) = ((u, s', e'), fs, out)"
proof (induction files arbitrary: s e)
  case Nil
  then show ?case by simp
next
  case (Cons q files)
  then have "settled fs q" by simp
  from settled_noop [OF this] obtain st o1 where
    step: "update_html_file fs q = (st, fs, o1)" "st \<noteq> Updated" by blast
  let ?s = "if st = Skipped then s + 1 else s" and ?e = "if st = Skipped then e else e + 1"
  from Cons.IH [of ?s ?e] Cons.prems obtain s' e' o2 where
    "update_all fs files (u, ?s, ?e) = ((u, s', e'), fs, o2)" by auto
  then have "update_all fs (q # files) (u, s, e) = ((u, s', e'), fs, o1 @ o2)"
    using step by (cases st) (simp_all add: update_all_step)
  then show ?case by blast
qed

lemma scan_files_iff:
  "p \<in> set (fst (scan_files join fs root files)) \<longleftrightarrow>
     (\<exists>nm \<in> set files. suffix (str ''.html'') nm \<and> p = join root nm \<and>
        (\<exists>c. read_text fs p = Some c \<and> re_search TAILWIND_PATTERN c \<noteq> None))"
proof (induction files)
  case Nil
  then show ?case by simp
next
  case (Cons nm files)
  obtain h o1 where r: "scan_files join fs root files = (h, o1)"
    by (cases "scan_files join fs root files") auto
  have "p \<in> set (fst (scan_files join fs root (nm # files))) \<longleftrightarrow>
      (suffix (str ''.html'') nm \<and> p = join root nm \<and>
        (\<exists>c. read_text fs p = Some c \<and> re_search TAILWIND_PATTERN c \<noteq> None)) \<or> p \<in> set h"
    using r by (auto simp: Let_def split: option.splits)
  then show ?case using Cons.IH r by auto
qed

lemma scan_tree_iff:
  "p \<in> set (fst (scan_tree join fs tree)) \<longleftrightarrow>
     (\<exists>(root, dirs, files) \<in> set tree. p \<in> set (fst (scan_files join fs root files)))"
proof (induction tree)
  case Nil
  then show ?case by simp
next
  case (Cons t tree)
  obtain root dirs files where t: "t = (root, dirs, files)" by (cases t) auto
  show ?case using Cons.IH unfolding t by (auto split: prod.splits)
qed

lemma candidates_cong:
  assumes "read_text fs1 p = read_text fs p"
  shows "p \<in> set (fst (find_html_files_with_tailwind os_walk join fs1 b)) \<longleftrightarrow>
         p \<in> set (fst (find_html_files_with_tailwind os_walk join fs b))"
  unfolding find_html_files_with_tailwind_def scan_tree_iff scan_files_iff using assms by simp

lemma settled_report:
  assumes "settled fs p" "read_text fs p = Some c" "\<not> sublist THEME_RESOURCES_PATTERN c"
  shows "update_html_file fs p = (Skipped, fs, [Procesando p, NoSePudoModificar]) \<or>
         (\<exists>out. update_html_file fs p = (Error, fs, out))"
proof -
  obtain f where f: "fs p = Some f" "contents f = Some c" using assms(2) read_text_Some by blast
  obtain c' m o1 where a: "apply_insertions c = (c', m, o1)" by (metis prod_cases3)
  show ?thesis
  proof (cases m)
    case False
    then have "c' = c" "o1 = []" using a apply_insertions_unmodified [of c c' o1] by simp_all
    then show ?thesis using update_html_file_unmodified [OF assms(2,3)] a False by simp
  next
    case True
    then have "\<not> writable f" using assms(1,3) f a by (auto simp: settled_def)
    then have "write_text fs p c' = None" using f by (simp add: write_text_def)
    then show ?thesis using assms(2,3) a True by (simp add: update_html_file_def)
  qed
qed

lemma update_html_file_both:
  assumes "fs p = Some f" "contents f = Some content" "writable f"
    "re_search material_pattern content \<noteq> None" "re_search body_pattern content \<noteq> None"
    "\<not> sublist THEME_RESOURCES_PATTERN content" "\<not> sublist THEME_SCRIPT_PATTERN content"
  shows "\<exists>final A B C.
     update_html_file fs p =
       (Updated, fs(p \<mapsto> f\<lparr>contents := Some final\<rparr>),
        [Procesando p, CssAgregado, JsAgregado, ArchivoGuardado]) \<and>
     content = A @ B @ C \<and>
     (final = A @ CSS_SNIPPET @ B @ JS_SNIPPET @ C \<or> final = A @ JS_SNIPPET @ B @ CSS_SNIPPET @ C) \<and>
     count_occ THEME_RESOURCES_PATTERN final = 1 \<and> count_occ THEME_SCRIPT_PATTERN final = 1"
proof -
  have "has_head_anchor content" "has_body_anchor content"
    using assms(4,5) re_search_material_iff re_search_body_iff by blast+
  from both_insertions [OF this assms(6,7)] obtain final A B C where
    b: "apply_insertions content = (final, True, [CssAgregado, JsAgregado])"
      "content = A @ B @ C"
      "final = A @ CSS_SNIPPET @ B @ JS_SNIPPET @ C \<or> final = A @ JS_SNIPPET @ B @ CSS_SNIPPET @ C"
      "count_occ THEME_RESOURCES_PATTERN final = 1" "count_occ THEME_SCRIPT_PATTERN final = 1"
    by blast
  have r: "read_text fs p = Some content" using assms(1,2) by (simp add: read_text_def)
  have w: "write_text fs p final = Some (fs(p \<mapsto> f\<lparr>contents := Some final\<rparr>))"
    using assms(1,3) by (simp add: write_text_existing)
  have "update_html_file fs p =
       (Updated, fs(p \<mapsto> f\<lparr>contents := Some final\<rparr>),
        [Procesando p, CssAgregado, JsAgregado, ArchivoGuardado])"
    using r w b(1) assms(6) by (simp add: update_html_file_def)
  then show ?thesis using b(2-5) by blast
qed

lemma tailwind_search: "re_search TAILWIND_PATTERN c \<noteq> None \<longleftrightarrow> sublist (str ''cdn.tailwindcss.com'') c"
  unfolding TAILWIND_PATTERN_def by (rule re_search_lit)

section \<open>The scan as a filter on the HTML files of the walk\<close>

lemma scan_files_paths:
  "scan_files join fs root files =
     (filter (\<lambda>p. \<exists>c. read_text fs p = Some c \<and> re_search TAILWIND_PATTERN c \<noteq> None)
        (map (join root) (filter (suffix (str ''.html'')) files)),
      map ErrorLeyendo
        (filter (\<lambda>p. read_text fs p = None) (map (join root) (filter (suffix (str ''.html'')) files))))"
proof (induction files)
  case Nil
  then show ?case by simp
next
  case (Cons nm files)
  show ?case unfolding scan_files.simps Cons.IH
    by (cases "read_text fs (join root nm)") (simp_all add: Let_def)
qed

lemma scan_tree_paths:
  "scan_tree join fs tree =
     (filter (\<lambda>p. \<exists>c. read_text fs p = Some c \<and> re_search TAILWIND_PATTERN c \<noteq> None)
        (html_paths join tree),
      map ErrorLeyendo (filter (\<lambda>p. read_text fs p = None) (html_paths join tree)))"
proof (induction tree)
  case Nil
  then show ?case by (simp add: html_paths_def)
next
  case (Cons t tree)
  obtain root dirs files where t: "t = (root, dirs, files)" by (cases t) auto
  show ?case unfolding t scan_tree.simps Cons.IH scan_files_paths
    by (simp add: html_paths_def)
qed

lemma two_element_list:
  assumes "distinct xs" "set xs = {x, y}" "x \<noteq> y"
  shows "xs = [x, y] \<or> xs = [y, x]"
proof -
  have "length xs = card {x, y}" using assms(1,2) distinct_card by fastforce
  then have "length xs = 2" using assms(3) by simp
  then obtain u v where xs: "xs = [u, v]"
    by (cases xs; cases "tl xs") auto
  then have "{u, v} = {x, y}" using assms(2) by simp
  then show ?thesis unfolding xs by (auto simp: doubleton_eq_iff)
qed

section \<open>The candidates after a run\<close>

lemma sublist_keep_last:
  assumes "sublist Z (L @ R)" "L \<noteq> []" "last L \<notin> set Z"
  shows "sublist Z (L @ T @ R)"
proof -
  from assms(1) obtain A g where "L @ R = A @ Z @ g" by (auto simp: sublist_def)
  from block_split [OF this] consider
      b where "L = A @ Z @ b"
    | a where "R = a @ Z @ g"
    | U V where "U \<noteq> []" "V \<noteq> []" "Z = U @ V" "L = A @ U" "R = V @ g"
    by blast
  then show ?thesis
  proof cases
    case 1
    then have "L @ T @ R = A @ Z @ (b @ T @ R)" by simp
    then show ?thesis unfolding sublist_def by blast
  next
    case 2
    then have "L @ T @ R = (L @ T @ a) @ Z @ g" by simp
    then show ?thesis unfolding sublist_def by blast
  next
    case 3
    then have "last L = last U" "last U \<in> set Z" by simp_all
    then show ?thesis using assms(3) by simp
  qed
qed

lemma apply_insertions_keeps:
  assumes "sublist Z c" "62 \<notin> set Z" "60 \<notin> set Z" "\<forall>x \<in> set Z. \<not> is_space x"
    "apply_insertions c = (c', m, out)"
  shows "sublist Z c'"
proof -
  have js: "sublist Z c2" if "sublist Z c1" "insert_js c1 = Some c2" for c1 c2
  proof -
    from insert_js_Some [OF that(2)] obtain A1 Z1 r where
      b: "c1 = (A1 @ Z1) @ r" "body_close_first r" "c2 = (A1 @ Z1) @ JS_SNIPPET @ r"
      by auto
    show ?thesis
      unfolding b(3)
      using sublist_keep [of Z "A1 @ Z1" r JS_SNIPPET] that(1) b(1)
        body_close_first_hd [OF b(2)] assms(3) by simp
  qed
  have css: "sublist Z c1" if "insert_css c = Some c1" for c1
  proof -
    from insert_css_Some [OF that] obtain A0 Z0 W2 rest where
      h: "c = (A0 @ Z0 @ W2) @ rest" "head_construct Z0" "list_all is_space W2"
        "c1 = (A0 @ Z0 @ W2) @ CSS_SNIPPET @ rest"
      by auto
    have "head_anchor_end (A0 @ Z0 @ W2)" unfolding head_anchor_end_def using h(2,3) by blast
    from head_anchor_end_last [OF this] have "A0 @ Z0 @ W2 \<noteq> []"
      "last (A0 @ Z0 @ W2) \<notin> set Z"
      using assms(2,4) by auto
    then show ?thesis
      unfolding h(4)
      using sublist_keep_last [of Z "A0 @ Z0 @ W2" rest CSS_SNIPPET] assms(1) h(1) by simp
  qed
  show ?thesis
  proof (cases "insert_css c")
    case None
    then show ?thesis
      using assms(1,5) js [of c] by (cases "insert_js c") (auto simp: apply_insertions_cases)
  next
    case (Some c1)
    then show ?thesis
      using assms(5) css [OF Some] js [of c1]
      by (cases "insert_js c1") (auto simp: apply_insertions_cases)
  qed
qed

lemma cdn_chars:
  "62 \<notin> set (str ''cdn.tailwindcss.com'')" "60 \<notin> set (str ''cdn.tailwindcss.com'')"
  "\<forall>x \<in> set (str ''cdn.tailwindcss.com''). \<not> is_space x"
  by (simp_all add: str_def is_space_def)

lemma update_html_file_view:
  assumes "update_html_file fs q = (st, fs1, out)" "cdn_view fs q = Some True"
  shows "cdn_view fs1 p = cdn_view fs p"
proof (cases "p = q")
  case False
  then have "fs1 p = fs p" using update_html_file_frame [OF assms(1)] by simp
  then show ?thesis by (simp add: cdn_view_def read_text_def)
next
  case True
  from assms(2) obtain c where c: "read_text fs q = Some c"
      "sublist (str ''cdn.tailwindcss.com'') c"
    using tailwind_search by (auto simp: cdn_view_def)
  then obtain f where f: "fs q = Some f" "contents f = Some c" using read_text_Some by blast
  obtain c' m o1 where a: "apply_insertions c = (c', m, o1)" by (metis prod_cases3)
  have keep: "sublist (str ''cdn.tailwindcss.com'') c'"
    using apply_insertions_keeps [OF c(2) cdn_chars a] .
  have "fs1 = fs \<or> fs1 = fs(q \<mapsto> f\<lparr>contents := Some c'\<rparr>)"
    using assms(1) c(1) f a
    by (auto simp: update_html_file_def write_text_def split: if_splits)
  then show ?thesis
  proof
    assume "fs1 = fs"
    then show ?thesis by simp
  next
    assume "fs1 = fs(q \<mapsto> f\<lparr>contents := Some c'\<rparr>)"
    then have "read_text fs1 q = Some c'" by (simp add: read_text_def)
    moreover have "re_search TAILWIND_PATTERN c' \<noteq> None" using keep tailwind_search by blast
    ultimately have "cdn_view fs1 q = Some True" by (simp add: cdn_view_def)
    then show ?thesis using assms(2) True by simp
  qed
qed

lemma update_all_view:
  "update_all fs files counters = (counters', fs', out)
   \<Longrightarrow> \<forall>q \<in> set files. cdn_view fs q = Some True
   \<Longrightarrow> cdn_view fs' p = cdn_view fs p"
proof (induction files arbitrary: fs counters counters' fs' out)
  case Nil
  then show ?case by simp
next
  case (Cons q files)
  obtain u s e where cnt: "counters = (u, s, e)" by (cases counters) auto
  obtain r fs1 o1 where step: "update_html_file fs q = (r, fs1, o1)" by (metis prod_cases3)
  let ?cnt = "if r = Updated then (u + 1, s, e)
              else if r = Skipped then (u, s + 1, e) else (u, s, e + 1)"
  obtain c2 fs2 o2 where rest: "update_all fs1 files ?cnt = (c2, fs2, o2)" by (metis prod_cases3)
  have fs': "fs' = fs2" using Cons.prems(1) cnt step rest by (simp add: update_all_step)
  have v: "cdn_view fs1 x = cdn_view fs x" for x
    using update_html_file_view [OF step] Cons.prems(2) by simp
  then have "\<forall>q \<in> set files. cdn_view fs1 q = Some True" using Cons.prems(2) by simp
  from Cons.IH [OF rest this] show ?case using v fs' by simp
qed

lemma scan_files_view:
  assumes "\<And>p. cdn_view fs1 p = cdn_view fs p"
  shows "scan_files join fs1 root files = scan_files join fs root files"
proof (induction files)
  case Nil
  then show ?case by simp
next
  case (Cons nm files)
  have "cdn_view fs1 (join root nm) = cdn_view fs (join root nm)" using assms by simp
  then show ?case using Cons.IH
    by (cases "read_text fs1 (join root nm)"; cases "read_text fs (join root nm)")
       (auto simp: cdn_view_def Let_def split: prod.splits)
qed

lemma scan_tree_view:
  assumes "\<And>p. cdn_view fs1 p = cdn_view fs p"
  shows "scan_tree join fs1 tree = scan_tree join fs tree"
proof (induction tree)
  case Nil
  then show ?case by simp
next
  case (Cons t tree)
  obtain root dirs files where t: "t = (root, dirs, files)" by (cases t) auto
  show ?case using Cons.IH scan_files_view [OF assms] unfolding t by simp
qed

lemma candidate_view:
  assumes "p \<in> set (fst (find_html_files_with_tailwind os_walk join fs b))"
  shows "cdn_view fs p = Some True"
proof -
  from assms obtain c where "read_text fs p = Some c" "re_search TAILWIND_PATTERN c \<noteq> None"
    using scan_tree_found [of p join fs "os_walk b"]
    by (auto simp: find_html_files_with_tailwind_def)
  then show ?thesis by (simp add: cdn_view_def)
qed

text \<open>A run of \<open>main\<close> leaves the list of candidates, and the errors of the scan, as they were.\<close>

lemma main_keeps_candidates:
  assumes "main os_walk join fs = (counters1, fs1, out1)"
  shows "find_html_files_with_tailwind os_walk join fs1 b =
         find_html_files_with_tailwind os_walk join fs b"
proof -
  let ?cand = "fst (find_html_files_with_tailwind os_walk join fs PROJECT_PATH)"
  obtain c fs' out where u: "update_all fs ?cand (0, 0, 0) = (c, fs', out)"
    by (metis prod_cases3)
  have fs1: "fs1 = fs'" using assms u unfolding main_unfold by simp
  have "\<forall>q \<in> set ?cand. cdn_view fs q = Some True" using candidate_view by blast
  then have "cdn_view fs1 p = cdn_view fs p" for p
    using update_all_view [OF u] fs1 by simp
  then show ?thesis
    unfolding find_html_files_with_tailwind_def using scan_tree_view by blast
qed

section \<open>The claims\<close>

lemmas fix_eval = str_def DIV_CLOSE_def SCRIPT_OPEN_def NL_def CRNL_def FIX_REPL_def
  fix_pattern_def lit_def is_space_def sublist_code read_text_def write_text_def
  fix_theme_resources_format_def FUSED_def

lemmas inj_eval = str_def NL_def lit_def is_space_def sublist_code read_text_def write_text_def
  TAILWIND_PATTERN_def THEME_RESOURCES_PATTERN_def THEME_SCRIPT_PATTERN_def THEME_RESOURCES_def
  THEME_SCRIPT_def material_pattern_def body_pattern_def insert_css_def insert_js_def
  apply_insertions_def update_html_file_def find_html_files_with_tailwind_def main_def
  opt_lit_def ci_eq_def Let_def suffix_to_prefix walk_const_def join_slash_def

text \<open>
  C1, amended. After one run of \<open>main\<close>, a second run on the file system it leaves has the same
  candidates, changes no file and counts no file as updated. For every candidate the second call
  of \<open>update_html_file\<close> leaves the file system as it is; it reports that the theme is already
  there when the text holds the resource marker, and otherwise reports that the file could not
  be modified (no head anchor and nothing left to insert) or, for a file that cannot be
  written, ends in the exception handler again.
\<close>

theorem main_second_run:
  assumes "main os_walk join fs = (counters1, fs1, out1)"
  shows "find_html_files_with_tailwind os_walk join fs1 PROJECT_PATH =
           find_html_files_with_tailwind os_walk join fs PROJECT_PATH \<and>
     (\<exists>skipped errors out2. main os_walk join fs1 = ((0, skipped, errors), fs1, out2)) \<and>
     (\<forall>p \<in> set (fst (find_html_files_with_tailwind os_walk join fs PROJECT_PATH)).
        \<exists>c. read_text fs1 p = Some c \<and>
          (if sublist THEME_RESOURCES_PATTERN c
           then update_html_file fs1 p = (Skipped, fs1, [Omitido p])
           else update_html_file fs1 p = (Skipped, fs1, [Procesando p, NoSePudoModificar]) \<or>
                (\<exists>out. update_html_file fs1 p = (Error, fs1, out))))"
proof -
  let ?cand = "\<lambda>fs. fst (find_html_files_with_tailwind os_walk join fs PROJECT_PATH)"
  obtain c fs' out where u: "update_all fs (?cand fs) (0, 0, 0) = (c, fs', out)"
    by (metis prod_cases3)
  have fs1: "fs1 = fs'" using assms u unfolding main_unfold by simp
  note s = update_all_settles [OF u]
  have settled: "settled fs1 p" if "p \<in> set (?cand fs1)" for p
  proof (cases "p \<in> set (?cand fs)")
    case True
    then show ?thesis using s fs1 by blast
  next
    case False
    then have "fs1 p = fs p" using s fs1 by blast
    then have "read_text fs1 p = read_text fs p" by (simp add: read_text_def)
    then have "p \<in> set (?cand fs)" using candidates_cong that by blast
    then show ?thesis using False by blast
  qed
  then have "\<forall>p \<in> set (?cand fs1). settled fs1 p" by blast
  from update_all_noop [OF this, of 0 0 0] obtain s' e' o2 where
    "update_all fs1 (?cand fs1) (0, 0, 0) = ((0, s', e'), fs1, o2)" by blast
  then have 1: "\<exists>skipped errors out2. main os_walk join fs1 = ((0, skipped, errors), fs1, out2)"
    unfolding main_unfold by simp
  have 2: "\<exists>c. read_text fs1 p = Some c \<and>
          (if sublist THEME_RESOURCES_PATTERN c
           then update_html_file fs1 p = (Skipped, fs1, [Omitido p])
           else update_html_file fs1 p = (Skipped, fs1, [Procesando p, NoSePudoModificar]) \<or>
                (\<exists>out. update_html_file fs1 p = (Error, fs1, out)))"
    if p: "p \<in> set (?cand fs1)" for p
  proof -
    from candidates_have_cdn [OF p] obtain c where c: "read_text fs1 p = Some c" by blast
    show ?thesis
    proof (cases "sublist THEME_RESOURCES_PATTERN c")
      case True
      then show ?thesis using c update_html_file_marker [OF c] by auto
    next
      case False
      then show ?thesis using c settled_report [OF settled [OF p] c] by auto
    qed
  qed
  have 0: "find_html_files_with_tailwind os_walk join fs1 PROJECT_PATH =
           find_html_files_with_tailwind os_walk join fs PROJECT_PATH"
    using main_keeps_candidates [OF assms] .
  have 3: "\<forall>p \<in> set (?cand fs). \<exists>c. read_text fs1 p = Some c \<and>
          (if sublist THEME_RESOURCES_PATTERN c
           then update_html_file fs1 p = (Skipped, fs1, [Omitido p])
           else update_html_file fs1 p = (Skipped, fs1, [Procesando p, NoSePudoModificar]) \<or>
                (\<exists>out. update_html_file fs1 p = (Error, fs1, out)))"
    using 2 0 by simp
  show ?thesis by (intro conjI 0 1 3)
qed

text \<open>
  C1 on a tree of two candidates: the first gets both snippets in the first run, the second
  has no head anchor and gets the script snippet only.
\<close>

theorem main_second_run_witness:
  \<open>(let os_walk = walk_const [(str ''t'', [], [str ''a.html'', str ''b.html''])];
        join = join_slash;
        fs = [str ''t/a.html'' \<mapsto>
                \<lparr>contents = Some (str ''cdn.tailwindcss.com Material+Symbols+Outlined" rel="stylesheet"/></script></body>''),
                 writable = True\<rparr>,
              str ''t/b.html'' \<mapsto>
                \<lparr>contents = Some (str ''cdn.tailwindcss.com</script></body>''), writable = True\<rparr>];
        fs1 = [str ''t/a.html'' \<mapsto>
                \<lparr>contents = Some (str ''cdn.tailwindcss.com Material+Symbols+Outlined" rel="stylesheet"/>'' @
                                 NL @ THEME_RESOURCES @ NL @ str ''</script>'' @ THEME_SCRIPT @
                                 str ''\<newline>  </body>''),
                 writable = True\<rparr>,
              str ''t/b.html'' \<mapsto>
                \<lparr>contents = Some (str ''cdn.tailwindcss.com</script>'' @ THEME_SCRIPT @
                                 str ''\<newline>  </body>''),
                 writable = True\<rparr>]
    in main os_walk join fs =
         ((2, 0, 0), fs1,
          [Procesando (str ''t/a.html''), CssAgregado, JsAgregado, ArchivoGuardado,
           Procesando (str ''t/b.html''), JsAgregado, ArchivoGuardado]) \<and>
       find_html_files_with_tailwind os_walk join fs1 PROJECT_PATH =
         find_html_files_with_tailwind os_walk join fs PROJECT_PATH \<and>
       (\<exists>skipped errors out2. main os_walk join fs1 = ((0, skipped, errors), fs1, out2)) \<and>
       (\<forall>p \<in> set (fst (find_html_files_with_tailwind os_walk join fs PROJECT_PATH)).
          \<exists>c. read_text fs1 p = Some c \<and>
            (if sublist THEME_RESOURCES_PATTERN c
             then update_html_file fs1 p = (Skipped, fs1, [Omitido p])
             else update_html_file fs1 p = (Skipped, fs1, [Procesando p, NoSePudoModificar]) \<or>
                  (\<exists>out. update_html_file fs1 p = (Error, fs1, out)))))\<close>
proof -
  let ?w = "walk_const [(str ''t'', [], [str ''a.html'', str ''b.html''])]"
  let ?j = join_slash
  let ?fs = \<open>[str ''t/a.html'' \<mapsto>
                \<lparr>contents = Some (str ''cdn.tailwindcss.com Material+Symbols+Outlined" rel="stylesheet"/></script></body>''),
                 writable = True\<rparr>,
              str ''t/b.html'' \<mapsto>
                \<lparr>contents = Some (str ''cdn.tailwindcss.com</script></body>''), writable = True\<rparr>]\<close>
  let ?fs1 = \<open>[str ''t/a.html'' \<mapsto>
                \<lparr>contents = Some (str ''cdn.tailwindcss.com Material+Symbols+Outlined" rel="stylesheet"/>'' @
                                 NL @ THEME_RESOURCES @ NL @ str ''</script>'' @ THEME_SCRIPT @
                                 str ''\<newline>  </body>''),
                 writable = True\<rparr>,
              str ''t/b.html'' \<mapsto>
                \<lparr>contents = Some (str ''cdn.tailwindcss.com</script>'' @ THEME_SCRIPT @
                                 str ''\<newline>  </body>''),
                 writable = True\<rparr>]\<close>
  have h: "main ?w ?j ?fs =
         ((2, 0, 0), ?fs1,
          [Procesando (str ''t/a.html''), CssAgregado, JsAgregado, ArchivoGuardado,
           Procesando (str ''t/b.html''), JsAgregado, ArchivoGuardado])"
    by (simp add: inj_eval fun_upd_twist)
  note t = main_second_run [OF h]
  show ?thesis
    unfolding Let_def by (intro conjI h conjunct1 [OF t] conjunct1 [OF conjunct2 [OF t]]
        conjunct2 [OF conjunct2 [OF t]])
qed

text \<open>
  C1 as stated fails on a candidate without head anchor: the first call inserts the script
  snippet, the second call changes nothing but reports that the file could not be modified,
  not that the theme is already there.
\<close>

theorem main_second_run_counterexample:
  "update_html_file
     [str ''t/b.html'' \<mapsto>
        \<lparr>contents = Some (str ''cdn.tailwindcss.com</script></body>''), writable = True\<rparr>]
     (str ''t/b.html'') =
   (Updated,
    [str ''t/b.html'' \<mapsto>
       \<lparr>contents = Some (str ''cdn.tailwindcss.com</script>'' @ THEME_SCRIPT @
                        str ''\<newline>  </body>''),
        writable = True\<rparr>],
    [Procesando (str ''t/b.html''), JsAgregado, ArchivoGuardado]) \<and>
   update_html_file
     [str ''t/b.html'' \<mapsto>
       \<lparr>contents = Some (str ''cdn.tailwindcss.com</script>'' @ THEME_SCRIPT @
                        str ''\<newline>  </body>''),
        writable = True\<rparr>]
     (str ''t/b.html'') =
   (Skipped,
    [str ''t/b.html'' \<mapsto>
       \<lparr>contents = Some (str ''cdn.tailwindcss.com</script>'' @ THEME_SCRIPT @
                        str ''\<newline>  </body>''),
        writable = True\<rparr>],
    [Procesando (str ''t/b.html''), NoSePudoModificar])"
  by (simp add: inj_eval)

text \<open>
  C2, amended. The walk of the project path meets exactly three HTML files, in any order and
  next to any files of other kinds: \<open>pa\<close> lacks the CDN reference, \<open>pb\<close> has it together with
  both anchors and neither marker, \<open>pc\<close> has it together with the resource marker. Then the
  scan prints no error and its candidates are \<open>pb\<close> and \<open>pc\<close>, in the order of the walk; one
  run of \<open>main\<close> makes both insertions in \<open>pb\<close> and reports it updated, reports \<open>pc\<close>
  skipped, leaves every other file as it is and prints nothing about \<open>pa\<close>; the counters are
  updated = 1, skipped = 1, errors = 0.
\<close>

theorem main_three_files:
  assumes "distinct (html_paths join (os_walk PROJECT_PATH))"
    "set (html_paths join (os_walk PROJECT_PATH)) = {pa, pb, pc}"
    "distinct [pa, pb, pc]"
    "read_text fs pa = Some ca" "\<not> sublist (str ''cdn.tailwindcss.com'') ca"
    "fs pb = Some f" "contents f = Some cb" "writable f"
    "sublist (str ''cdn.tailwindcss.com'') cb"
    "re_search material_pattern cb \<noteq> None" "re_search body_pattern cb \<noteq> None"
    "\<not> sublist THEME_RESOURCES_PATTERN cb" "\<not> sublist THEME_SCRIPT_PATTERN cb"
    "read_text fs pc = Some cc" "sublist (str ''cdn.tailwindcss.com'') cc"
    "sublist THEME_RESOURCES_PATTERN cc"
  shows "\<exists>final A B C cands out.
     find_html_files_with_tailwind os_walk join fs PROJECT_PATH = (cands, []) \<and>
     main os_walk join fs = ((1, 1, 0), fs(pb \<mapsto> f\<lparr>contents := Some final\<rparr>), out) \<and>
     (cands = [pb, pc] \<and>
        out = [Procesando pb, CssAgregado, JsAgregado, ArchivoGuardado, Omitido pc] \<or>
      cands = [pc, pb] \<and>
        out = [Omitido pc, Procesando pb, CssAgregado, JsAgregado, ArchivoGuardado]) \<and>
     cb = A @ B @ C \<and>
     (final = A @ (NL @ THEME_RESOURCES @ NL) @ B @ (THEME_SCRIPT @ str ''\<newline>  '') @ C \<or>
      final = A @ (THEME_SCRIPT @ str ''\<newline>  '') @ B @ (NL @ THEME_RESOURCES @ NL) @ C)"
proof -
  let ?hp = "html_paths join (os_walk PROJECT_PATH)"
  define cdn where
    "cdn = (\<lambda>p. \<exists>c. read_text fs p = Some c \<and> re_search TAILWIND_PATTERN c \<noteq> None)"
  define cands where "cands = filter cdn ?hp"
  have rb: "read_text fs pb = Some cb" using assms(6,7) by (simp add: read_text_def)
  have ta: "\<not> cdn pa" unfolding cdn_def using assms(4,5) tailwind_search by simp
  have tb: "cdn pb" unfolding cdn_def using rb assms(9) tailwind_search by simp
  have tc: "cdn pc" unfolding cdn_def using assms(14,15) tailwind_search by simp
  have ne: "pa \<noteq> pb" "pa \<noteq> pc" "pb \<noteq> pc" using assms(3) by simp_all
  have "filter (\<lambda>p. read_text fs p = None) ?hp = []"
    unfolding filter_empty_conv assms(2) using assms(4,14) rb by simp
  then have find: "find_html_files_with_tailwind os_walk join fs PROJECT_PATH = (cands, [])"
    by (simp add: find_html_files_with_tailwind_def scan_tree_paths cands_def cdn_def)
  have sc: "set cands = {pb, pc}"
    unfolding cands_def set_filter assms(2) using ta tb tc by blast
  have dc: "distinct cands" unfolding cands_def using assms(1) by simp
  have order: "cands = [pb, pc] \<or> cands = [pc, pb]"
    using dc sc ne(3) by (rule two_element_list)
  from update_html_file_both [of fs pb f cb] assms(6,7,8,10,11,12,13) obtain final A B C where
    u: "update_html_file fs pb =
       (Updated, fs(pb \<mapsto> f\<lparr>contents := Some final\<rparr>),
        [Procesando pb, CssAgregado, JsAgregado, ArchivoGuardado])"
      "cb = A @ B @ C"
      "final = A @ CSS_SNIPPET @ B @ JS_SNIPPET @ C \<or> final = A @ JS_SNIPPET @ B @ CSS_SNIPPET @ C"
    by blast
  let ?fs = "fs(pb \<mapsto> f\<lparr>contents := Some final\<rparr>)"
  have "read_text ?fs pc = Some cc" using assms(14) ne(3) by (simp add: read_text_def)
  then have uc1: "update_html_file ?fs pc = (Skipped, ?fs, [Omitido pc])"
    using assms(16) by (rule update_html_file_marker)
  have uc0: "update_html_file fs pc = (Skipped, fs, [Omitido pc])"
    using assms(14,16) by (rule update_html_file_marker)
  have bc: "update_all fs [pb, pc] (0, 0, 0) =
      ((1, 1, 0), ?fs, [Procesando pb, CssAgregado, JsAgregado, ArchivoGuardado, Omitido pc])"
    using u(1) uc1 by (simp add: update_all_step)
  have cb: "update_all fs [pc, pb] (0, 0, 0) =
      ((1, 1, 0), ?fs, [Omitido pc, Procesando pb, CssAgregado, JsAgregado, ArchivoGuardado])"
    using u(1) uc0 by (simp add: update_all_step)
  have fin: "final = A @ (NL @ THEME_RESOURCES @ NL) @ B @ (THEME_SCRIPT @ str ''\<newline>  '') @ C \<or>
      final = A @ (THEME_SCRIPT @ str ''\<newline>  '') @ B @ (NL @ THEME_RESOURCES @ NL) @ C"
    using u(3) unfolding CSS_SNIPPET_def JS_SNIPPET_def by simp
  from order show ?thesis
  proof
    assume o: "cands = [pb, pc]"
    have m: "main os_walk join fs =
        ((1, 1, 0), ?fs, [Procesando pb, CssAgregado, JsAgregado, ArchivoGuardado, Omitido pc])"
      unfolding main_unfold find using bc o by simp
    show ?thesis
      by (intro exI [of _ final] exI [of _ A] exI [of _ B] exI [of _ C] exI [of _ cands]
          exI [of _ "[Procesando pb, CssAgregado, JsAgregado, ArchivoGuardado, Omitido pc]"]
          conjI find m disjI1 o refl u(2) fin)
  next
    assume o: "cands = [pc, pb]"
    have m: "main os_walk join fs =
        ((1, 1, 0), ?fs, [Omitido pc, Procesando pb, CssAgregado, JsAgregado, ArchivoGuardado])"
      unfolding main_unfold find using cb o by simp
    show ?thesis
      by (intro exI [of _ final] exI [of _ A] exI [of _ B] exI [of _ C] exI [of _ cands]
          exI [of _ "[Omitido pc, Procesando pb, CssAgregado, JsAgregado, ArchivoGuardado]"]
          conjI find m disjI2 o refl u(2) fin)
  qed
qed

text \<open>
  C2 on a concrete directory whose listing gives the three files in the order \<open>c\<close>, \<open>b\<close>,
  \<open>a\<close>, with a text file among them and a subdirectory that holds a style sheet only.
\<close>

theorem main_three_files_witness:
  \<open>(let os_walk = walk_const [(str ''t'', [str ''css''],
                               [str ''c.html'', str ''notes.txt'', str ''b.html'', str ''a.html'']),
                              (str ''t/css'', [], [str ''site.css''])];
        join = join_slash;
        pa = str ''t/a.html''; pb = str ''t/b.html''; pc = str ''t/c.html'';
        ca = str ''<html></html>'';
        cb = str ''cdn.tailwindcss.com Material+Symbols+Outlined" rel="stylesheet"/></script></body>'';
        cc = str ''cdn.tailwindcss.com fragments/theme :: themeResources'';
        f = \<lparr>contents = Some cb, writable = True\<rparr>;
        fs = [pa \<mapsto> \<lparr>contents = Some ca, writable = True\<rparr>, pb \<mapsto> f,
              pc \<mapsto> \<lparr>contents = Some cc, writable = True\<rparr>]
    in html_paths join (os_walk PROJECT_PATH) = [pc, pb, pa] \<and>
       distinct (html_paths join (os_walk PROJECT_PATH)) \<and>
       set (html_paths join (os_walk PROJECT_PATH)) = {pa, pb, pc} \<and>
       distinct [pa, pb, pc] \<and>
       read_text fs pa = Some ca \<and> \<not> sublist (str ''cdn.tailwindcss.com'') ca \<and>
       fs pb = Some f \<and> contents f = Some cb \<and> writable f \<and>
       sublist (str ''cdn.tailwindcss.com'') cb \<and>
       re_search material_pattern cb \<noteq> None \<and> re_search body_pattern cb \<noteq> None \<and>
       \<not> sublist THEME_RESOURCES_PATTERN cb \<and> \<not> sublist THEME_SCRIPT_PATTERN cb \<and>
       read_text fs pc = Some cc \<and> sublist (str ''cdn.tailwindcss.com'') cc \<and>
       sublist THEME_RESOURCES_PATTERN cc \<and>
       (\<exists>final A B C cands out.
          find_html_files_with_tailwind os_walk join fs PROJECT_PATH = (cands, []) \<and>
          main os_walk join fs = ((1, 1, 0), fs(pb \<mapsto> f\<lparr>contents := Some final\<rparr>), out) \<and>
          (cands = [pb, pc] \<and>
             out = [Procesando pb, CssAgregado, JsAgregado, ArchivoGuardado, Omitido pc] \<or>
           cands = [pc, pb] \<and>
             out = [Omitido pc, Procesando pb, CssAgregado, JsAgregado, ArchivoGuardado]) \<and>
          cb = A @ B @ C \<and>
          (final = A @ (NL @ THEME_RESOURCES @ NL) @ B @ (THEME_SCRIPT @ str ''\<newline>  '') @ C \<or>
           final = A @ (THEME_SCRIPT @ str ''\<newline>  '') @ B @ (NL @ THEME_RESOURCES @ NL) @ C)))\<close>
proof -
  let ?w = "walk_const [(str ''t'', [str ''css''],
                         [str ''c.html'', str ''notes.txt'', str ''b.html'', str ''a.html'']),
                        (str ''t/css'', [], [str ''site.css''])]"
  let ?j = join_slash
  let ?pa = "str ''t/a.html''" and ?pb = "str ''t/b.html''" and ?pc = "str ''t/c.html''"
  let ?ca = "str ''<html></html>''"
  let ?cb = \<open>str ''cdn.tailwindcss.com Material+Symbols+Outlined" rel="stylesheet"/></script></body>''\<close>
  let ?cc = "str ''cdn.tailwindcss.com fragments/theme :: themeResources''"
  let ?f = "\<lparr>contents = Some ?cb, writable = True\<rparr>"
  let ?fs = "[?pa \<mapsto> \<lparr>contents = Some ?ca, writable = True\<rparr>, ?pb \<mapsto> ?f,
              ?pc \<mapsto> \<lparr>contents = Some ?cc, writable = True\<rparr>]"
  have h0: "html_paths ?j (?w PROJECT_PATH) = [?pc, ?pb, ?pa]"
    by (simp add: html_paths_def walk_const_def join_slash_def str_def suffix_to_prefix)
  have h3: "distinct [?pa, ?pb, ?pc]" by (simp add: str_def)
  have h1: "distinct (html_paths ?j (?w PROJECT_PATH))" unfolding h0 by (simp add: str_def)
  have h2: "set (html_paths ?j (?w PROJECT_PATH)) = {?pa, ?pb, ?pc}" unfolding h0 by auto
  have h4: "read_text ?fs ?pa = Some ?ca" by (simp add: read_text_def str_def)
  have h5: "\<not> sublist (str ''cdn.tailwindcss.com'') ?ca" by (simp add: str_def sublist_code)
  have h6: "?fs ?pb = Some ?f" by (simp add: str_def)
  have h7: "contents ?f = Some ?cb" by simp
  have h8: "writable ?f" by simp
  have h9: "sublist (str ''cdn.tailwindcss.com'') ?cb" by (simp add: str_def sublist_code)
  have h10: "re_search material_pattern ?cb \<noteq> None" by (simp add: inj_eval)
  have h11: "re_search body_pattern ?cb \<noteq> None" by (simp add: inj_eval)
  have h12: "\<not> sublist THEME_RESOURCES_PATTERN ?cb" by (simp add: inj_eval)
  have h13: "\<not> sublist THEME_SCRIPT_PATTERN ?cb" by (simp add: inj_eval)
  have h14: "read_text ?fs ?pc = Some ?cc" by (simp add: read_text_def str_def)
  have h15: "sublist (str ''cdn.tailwindcss.com'') ?cc" by (simp add: inj_eval)
  have h16: "sublist THEME_RESOURCES_PATTERN ?cc" by (simp add: inj_eval)
  note t = main_three_files [of ?j ?w ?pa ?pb ?pc ?fs ?ca ?f ?cb ?cc,
      OF h1 h2 h3 h4 h5 h6 h7 h8 h9 h10 h11 h12 h13 h14 h15 h16]
  show ?thesis
    unfolding Let_def
    by (intro conjI h0 h1 h2 h3 h4 h5 h6 h7 h8 h9 h10 h11 h12 h13 h14 h15 h16 t)
qed

text \<open>
  C2 as stated fails: in the scenario the counter of skipped files is 1, not 2, since the file
  without the CDN reference is not a candidate and is not counted.
\<close>

theorem main_three_files_counterexample:
  \<open>main (walk_const [(str ''t'', [], [str ''a.html'', str ''b.html'', str ''c.html''])])
     join_slash
     [str ''t/a.html'' \<mapsto> \<lparr>contents = Some (str ''<html></html>''), writable = True\<rparr>,
      str ''t/b.html'' \<mapsto>
        \<lparr>contents = Some (str ''cdn.tailwindcss.com Material+Symbols+Outlined" rel="stylesheet"/></script></body>''),
         writable = True\<rparr>,
      str ''t/c.html'' \<mapsto>
        \<lparr>contents = Some (str ''cdn.tailwindcss.com fragments/theme :: themeResources''),
         writable = True\<rparr>] =
   ((1, 1, 0),
    [str ''t/a.html'' \<mapsto> \<lparr>contents = Some (str ''<html></html>''), writable = True\<rparr>,
     str ''t/b.html'' \<mapsto>
       \<lparr>contents = Some (str ''cdn.tailwindcss.com Material+Symbols+Outlined" rel="stylesheet"/>'' @
                        NL @ THEME_RESOURCES @ NL @ str ''</script>'' @ THEME_SCRIPT @
                        str ''\<newline>  </body>''),
        writable = True\<rparr>,
     str ''t/c.html'' \<mapsto>
       \<lparr>contents = Some (str ''cdn.tailwindcss.com fragments/theme :: themeResources''),
        writable = True\<rparr>],
    [Procesando (str ''t/b.html''), CssAgregado, JsAgregado, ArchivoGuardado,
     Omitido (str ''t/c.html'')])\<close>
  by (simp add: inj_eval fun_upd_twist)

text \<open>
  C3. The body anchor is searched with \<^verbatim>\<open>re.search\<close>, which takes the first adjacency of a
  closing script tag and a closing body tag: on a text with two adjacencies the script
  snippet goes before the first closing body tag, not before the last one.
\<close>

theorem insert_js_first_adjacency:
  "insert_js (str ''</script></body></script></body>'') =
     Some (str ''</script>'' @ THEME_SCRIPT @ str ''\<newline>  '' @ str ''</body></script></body>'')"
  by (simp add: inj_eval)




text \<open>
  C5. A readable and writable file whose text holds the head anchor and the body anchor and
  neither marker is updated with both insertions: the new text is the old one with the two
  snippets spliced in at two places, nothing else changed, and it holds each marker at
  exactly one place.
\<close>

theorem update_html_file_both_insertions:
  assumes "fs p = Some f" "contents f = Some content" "writable f"
    "re_search material_pattern content \<noteq> None" "re_search body_pattern content \<noteq> None"
    "\<not> sublist THEME_RESOURCES_PATTERN content" "\<not> sublist THEME_SCRIPT_PATTERN content"
  shows "\<exists>final A B C.
     update_html_file fs p =
       (Updated, fs(p \<mapsto> f\<lparr>contents := Some final\<rparr>),
        [Procesando p, CssAgregado, JsAgregado, ArchivoGuardado]) \<and>
     content = A @ B @ C \<and>
     (final = A @ (NL @ THEME_RESOURCES @ NL) @ B @ (THEME_SCRIPT @ str ''\<newline>  '') @ C \<or>
      final = A @ (THEME_SCRIPT @ str ''\<newline>  '') @ B @ (NL @ THEME_RESOURCES @ NL) @ C) \<and>
     count_occ THEME_RESOURCES_PATTERN final = 1 \<and> count_occ THEME_SCRIPT_PATTERN final = 1"
  using update_html_file_both [of fs p f content] assms
  unfolding CSS_SNIPPET_def JS_SNIPPET_def by simp

text \<open>
  C5 on a small page.
\<close>

theorem update_html_file_both_insertions_witness:
  \<open>(let p = str ''a.html'';
        content = str ''<head><link href="Material+Symbols+Outlined" rel="stylesheet"/></head><body><script></script></body>'';
        f = \<lparr>contents = Some content, writable = True\<rparr>
    in [p \<mapsto> f] p = Some f \<and>
       re_search material_pattern content \<noteq> None \<and> re_search body_pattern content \<noteq> None \<and>
       \<not> sublist THEME_RESOURCES_PATTERN content \<and> \<not> sublist THEME_SCRIPT_PATTERN content \<and>
       (\<exists>final A B C.
          update_html_file [p \<mapsto> f] p =
            (Updated, [p \<mapsto> f](p \<mapsto> f\<lparr>contents := Some final\<rparr>),
             [Procesando p, CssAgregado, JsAgregado, ArchivoGuardado]) \<and>
          content = A @ B @ C \<and>
          (final = A @ (NL @ THEME_RESOURCES @ NL) @ B @ (THEME_SCRIPT @ str ''\<newline>  '') @ C \<or>
           final = A @ (THEME_SCRIPT @ str ''\<newline>  '') @ B @ (NL @ THEME_RESOURCES @ NL) @ C) \<and>
          count_occ THEME_RESOURCES_PATTERN final = 1 \<and>
          count_occ THEME_SCRIPT_PATTERN final = 1))\<close>
proof -
  let ?p = "str ''a.html''"
  let ?c = \<open>str ''<head><link href="Material+Symbols+Outlined" rel="stylesheet"/></head><body><script></script></body>''\<close>
  let ?f = "\<lparr>contents = Some ?c, writable = True\<rparr>"
  have a1: "[?p \<mapsto> ?f] ?p = Some ?f" "contents ?f = Some ?c" "writable ?f" by simp_all
  have a4: "re_search material_pattern ?c \<noteq> None" by (simp add: inj_eval)
  have a5: "re_search body_pattern ?c \<noteq> None" by (simp add: inj_eval)
  have a6: "\<not> sublist THEME_RESOURCES_PATTERN ?c" "\<not> sublist THEME_SCRIPT_PATTERN ?c"
    by (simp_all add: inj_eval)
  note t = update_html_file_both_insertions [of "[?p \<mapsto> ?f]" ?p ?f ?c, OF a1 a4 a5 a6]
  show ?thesis unfolding Let_def by (intro conjI a1(1) a4 a5 a6 t)
qed

text \<open>
  C6. A file whose text holds the theme-resource marker is skipped by \<open>update_html_file\<close>
  with the report that the theme is already there, the file system is left as it was, and a
  whole run of \<open>main\<close> leaves the file as it was.
\<close>

theorem update_html_file_marker_guard:
  assumes "read_text fs p = Some content" "sublist THEME_RESOURCES_PATTERN content"
  shows "update_html_file fs p = (Skipped, fs, [Omitido p]) \<and>
         fst (snd (main os_walk join fs)) p = fs p"
proof -
  obtain c fs' out where u: "update_all fs
      (fst (find_html_files_with_tailwind os_walk join fs PROJECT_PATH)) (0, 0, 0) = (c, fs', out)"
    using prod_cases3 by blast
  have "fs' p = fs p" using update_all_keeps [OF _ u] assms by blast
  then have "fst (snd (main os_walk join fs)) p = fs p"
    unfolding main_unfold using u by simp
  then show ?thesis using update_html_file_marker [OF assms] by simp
qed

text \<open>
  C6 on a file that holds the snippet already.
\<close>

theorem update_html_file_marker_guard_witness:
  "(let p = str ''t/a.html'';
        content = str ''<link href=cdn.tailwindcss.com>'' @ THEME_RESOURCES @ str ''</script></body>'';
        fs = [p \<mapsto> \<lparr>contents = Some content, writable = True\<rparr>];
        os_walk = walk_const [(str ''t'', [], [str ''a.html''])]
    in read_text fs p = Some content \<and> sublist THEME_RESOURCES_PATTERN content \<and>
       update_html_file fs p = (Skipped, fs, [Omitido p]) \<and>
       fst (snd (main os_walk join_slash fs)) p = fs p)"
proof -
  let ?p = "str ''t/a.html''"
  let ?c = "str ''<link href=cdn.tailwindcss.com>'' @ THEME_RESOURCES @ str ''</script></body>''"
  let ?fs = "[?p \<mapsto> \<lparr>contents = Some ?c, writable = True\<rparr>]"
  have h1: "read_text ?fs ?p = Some ?c" by (simp add: read_text_def)
  have h2: "sublist THEME_RESOURCES_PATTERN ?c" by (simp add: inj_eval)
  show ?thesis
    unfolding Let_def
    using update_html_file_marker_guard [of ?fs ?p ?c "walk_const [(str ''t'', [], [str ''a.html''])]"
        join_slash, OF h1 h2]
    by (intro conjI h1 h2) simp_all
qed

text \<open>
  C7. A writable file whose text holds \<^verbatim>\<open>themeResources}"></div>\<close>, a newline and
  \<^verbatim>\<open><script\<close> with nothing between is rewritten by \<open>fix_theme_resources_format\<close>: the
  file keeps its flag and every other file is left as it was, the new text holds the closing
  tag, a newline, four spaces and \<^verbatim>\<open><script\<close>, and it differs from the old text in white
  space only. The first occurrence of the pattern is rewritten in place, the text before it is
  kept and the text after it is treated in the same way. Where the text does not hold
  \<^verbatim>\<open><scripthemeResources}"></div>\<close>, the adjacency itself is rewritten in place; when, in
  addition, the pattern matches nowhere before it and nowhere after it, the rest of the text is
  kept character by character. A file whose text holds the adjacency in neither the Unix nor
  the Windows form is reported OK and the file system is left as it was.
\<close>

theorem fix_theme_resources_format_adjacency:
  "(fs p = Some f \<and> contents f = Some content \<and> writable f \<and>
    content = P @ DIV_CLOSE @ NL @ SCRIPT_OPEN @ Q \<longrightarrow>
      (\<exists>fixed.
         fix_theme_resources_format fs p =
           (True, fs(p \<mapsto> f\<lparr>contents := Some fixed\<rparr>), [Arreglando p, FormatoCorregido]) \<and>
         sublist (DIV_CLOSE @ NL @ str ''    '' @ SCRIPT_OPEN) fixed \<and>
         filter (\<lambda>c. \<not> is_space c) fixed = filter (\<lambda>c. \<not> is_space c) content \<and>
         (\<exists>P0 W0 Q0.
            content = P0 @ DIV_CLOSE @ W0 @ SCRIPT_OPEN @ Q0 \<and> list_all is_space W0 \<and> 10 \<in> set W0 \<and>
            re_search fix_pattern P0 = None \<and>
            fixed = P0 @ DIV_CLOSE @ NL @ str ''    '' @ SCRIPT_OPEN @ re_sub_fix Q0) \<and>
         (\<not> sublist FUSED content \<longrightarrow>
            fixed = re_sub_fix P @ DIV_CLOSE @ NL @ str ''    '' @ SCRIPT_OPEN @ re_sub_fix Q) \<and>
         (\<not> sublist FUSED content \<and> re_search fix_pattern P = None \<and>
          re_search fix_pattern Q = None \<longrightarrow>
            fixed = P @ DIV_CLOSE @ NL @ str ''    '' @ SCRIPT_OPEN @ Q))) \<and>
   (read_text fs p = Some content \<and>
    \<not> sublist (DIV_CLOSE @ NL @ SCRIPT_OPEN) content \<and>
    \<not> sublist (DIV_CLOSE @ CRNL @ SCRIPT_OPEN) content \<longrightarrow>
      fix_theme_resources_format fs p = (False, fs, [FormatoOK p]))"
proof (intro conjI impI)
  assume a: "fs p = Some f \<and> contents f = Some content \<and> writable f \<and>
    content = P @ DIV_CLOSE @ NL @ SCRIPT_OPEN @ Q"
  let ?fixed = "re_sub_fix content"
  have c: "content = P @ DIV_CLOSE @ NL @ SCRIPT_OPEN @ Q" using a by simp
  have s: "sublist (DIV_CLOSE @ NL @ SCRIPT_OPEN) content"
    unfolding sublist_def using c by (metis append.assoc)
  have r: "read_text fs p = Some content" using a by (simp add: read_text_def)
  have w: "write_text fs p ?fixed = Some (fs(p \<mapsto> f\<lparr>contents := Some ?fixed\<rparr>))"
    using a by (simp add: write_text_existing)
  have 1: "fix_theme_resources_format fs p =
      (True, fs(p \<mapsto> f\<lparr>contents := Some ?fixed\<rparr>), [Arreglando p, FormatoCorregido])"
    using s r w by (simp add: fix_theme_resources_format_def)
  have "sublist FIX_REPL ?fixed"
    using re_sub_fix_adjacency [of NL content] s by (simp add: NL_def space_nl)
  then have 2: "sublist (DIV_CLOSE @ NL @ str ''    '' @ SCRIPT_OPEN) ?fixed"
    by (simp add: FIX_REPL_def NL_def str_def)
  have 3: "filter (\<lambda>c. \<not> is_space c) ?fixed = filter (\<lambda>c. \<not> is_space c) content"
    by (rule re_sub_fix_whitespace_only)
  have repl: "FIX_REPL @ t = DIV_CLOSE @ NL @ str ''    '' @ SCRIPT_OPEN @ t" for t
    by (simp add: FIX_REPL_def NL_def str_def)
  have "fix_occ (DIV_CLOSE @ NL @ SCRIPT_OPEN @ Q) NL Q"
    by (simp add: fix_occ_def NL_def space_nl)
  then have "fix_pattern (DIV_CLOSE @ NL @ SCRIPT_OPEN @ Q) \<noteq> None"
    using fix_pattern_complete by fastforce
  then have "re_search fix_pattern content \<noteq> None" unfolding c by (rule re_search_complete)
  from re_sub_fix_first [OF this]
  have 4: "\<exists>P0 W0 Q0.
      content = P0 @ DIV_CLOSE @ W0 @ SCRIPT_OPEN @ Q0 \<and> list_all is_space W0 \<and> 10 \<in> set W0 \<and>
      re_search fix_pattern P0 = None \<and>
      ?fixed = P0 @ DIV_CLOSE @ NL @ str ''    '' @ SCRIPT_OPEN @ re_sub_fix Q0"
    unfolding repl .
  have place: "?fixed = re_sub_fix P @ DIV_CLOSE @ NL @ str ''    '' @ SCRIPT_OPEN @ re_sub_fix Q"
    if "\<not> sublist FUSED content"
    using re_sub_fix_in_place [of NL P Q] that unfolding c repl by (simp add: NL_def space_nl)
  then have 5: "\<not> sublist FUSED content \<longrightarrow>
      ?fixed = re_sub_fix P @ DIV_CLOSE @ NL @ str ''    '' @ SCRIPT_OPEN @ re_sub_fix Q"
    by blast
  have 6: "\<not> sublist FUSED content \<and> re_search fix_pattern P = None \<and>
      re_search fix_pattern Q = None \<longrightarrow>
      ?fixed = P @ DIV_CLOSE @ NL @ str ''    '' @ SCRIPT_OPEN @ Q"
    using place re_sub_fix_idle [of P] re_sub_fix_idle [of Q] by simp
  show "\<exists>fixed.
         fix_theme_resources_format fs p =
           (True, fs(p \<mapsto> f\<lparr>contents := Some fixed\<rparr>), [Arreglando p, FormatoCorregido]) \<and>
         sublist (DIV_CLOSE @ NL @ str ''    '' @ SCRIPT_OPEN) fixed \<and>
         filter (\<lambda>c. \<not> is_space c) fixed = filter (\<lambda>c. \<not> is_space c) content \<and>
         (\<exists>P0 W0 Q0.
            content = P0 @ DIV_CLOSE @ W0 @ SCRIPT_OPEN @ Q0 \<and> list_all is_space W0 \<and> 10 \<in> set W0 \<and>
            re_search fix_pattern P0 = None \<and>
            fixed = P0 @ DIV_CLOSE @ NL @ str ''    '' @ SCRIPT_OPEN @ re_sub_fix Q0) \<and>
         (\<not> sublist FUSED content \<longrightarrow>
            fixed = re_sub_fix P @ DIV_CLOSE @ NL @ str ''    '' @ SCRIPT_OPEN @ re_sub_fix Q) \<and>
         (\<not> sublist FUSED content \<and> re_search fix_pattern P = None \<and>
          re_search fix_pattern Q = None \<longrightarrow>
            fixed = P @ DIV_CLOSE @ NL @ str ''    '' @ SCRIPT_OPEN @ Q)"
    by (intro exI [of _ ?fixed] conjI 1 2 3 4 5 6)
next
  assume "read_text fs p = Some content \<and>
    \<not> sublist (DIV_CLOSE @ NL @ SCRIPT_OPEN) content \<and>
    \<not> sublist (DIV_CLOSE @ CRNL @ SCRIPT_OPEN) content"
  then show "fix_theme_resources_format fs p = (False, fs, [FormatoOK p])"
    by (simp add: fix_theme_resources_format_def)
qed

text \<open>
  The two cases of C7, on a file with the adjacency at one place and on a file without it.
\<close>

theorem fix_theme_resources_format_adjacency_witness:
  "(let p = str ''a.html'';
        P = str ''<head>'';
        Q = str '' src=app.js></script></head>'';
        content = P @ DIV_CLOSE @ NL @ SCRIPT_OPEN @ Q;
        f = \<lparr>contents = Some content, writable = True\<rparr>;
        d = str ''<head>'' @ DIV_CLOSE @ str '' '' @ SCRIPT_OPEN;
        g = \<lparr>contents = Some d, writable = True\<rparr>
    in [p \<mapsto> f] p = Some f \<and> contents f = Some content \<and> writable f \<and>
       \<not> sublist FUSED content \<and> re_search fix_pattern P = None \<and>
       re_search fix_pattern Q = None \<and>
       fix_theme_resources_format [p \<mapsto> f] p =
         (True,
          [p \<mapsto> \<lparr>contents = Some (P @ DIV_CLOSE @ NL @ str ''    '' @ SCRIPT_OPEN @ Q),
                   writable = True\<rparr>],
          [Arreglando p, FormatoCorregido]) \<and>
       (\<exists>fixed.
          fix_theme_resources_format [p \<mapsto> f] p =
            (True, [p \<mapsto> f](p \<mapsto> f\<lparr>contents := Some fixed\<rparr>),
             [Arreglando p, FormatoCorregido]) \<and>
          sublist (DIV_CLOSE @ NL @ str ''    '' @ SCRIPT_OPEN) fixed \<and>
          filter (\<lambda>c. \<not> is_space c) fixed = filter (\<lambda>c. \<not> is_space c) content \<and>
          (\<exists>P0 W0 Q0.
             content = P0 @ DIV_CLOSE @ W0 @ SCRIPT_OPEN @ Q0 \<and> list_all is_space W0 \<and>
             10 \<in> set W0 \<and> re_search fix_pattern P0 = None \<and>
             fixed = P0 @ DIV_CLOSE @ NL @ str ''    '' @ SCRIPT_OPEN @ re_sub_fix Q0) \<and>
          (\<not> sublist FUSED content \<longrightarrow>
             fixed = re_sub_fix P @ DIV_CLOSE @ NL @ str ''    '' @ SCRIPT_OPEN @ re_sub_fix Q) \<and>
          (\<not> sublist FUSED content \<and> re_search fix_pattern P = None \<and>
           re_search fix_pattern Q = None \<longrightarrow>
             fixed = P @ DIV_CLOSE @ NL @ str ''    '' @ SCRIPT_OPEN @ Q)) \<and>
       read_text [p \<mapsto> g] p = Some d \<and>
       \<not> sublist (DIV_CLOSE @ NL @ SCRIPT_OPEN) d \<and>
       \<not> sublist (DIV_CLOSE @ CRNL @ SCRIPT_OPEN) d \<and>
       fix_theme_resources_format [p \<mapsto> g] p = (False, [p \<mapsto> g], [FormatoOK p]))"
proof -
  let ?p = "str ''a.html''"
  let ?P = "str ''<head>''"
  let ?Q = "str '' src=app.js></script></head>''"
  let ?c = "?P @ DIV_CLOSE @ NL @ SCRIPT_OPEN @ ?Q"
  let ?d = "str ''<head>'' @ DIV_CLOSE @ str '' '' @ SCRIPT_OPEN"
  let ?f = "\<lparr>contents = Some ?c, writable = True\<rparr>"
  let ?g = "\<lparr>contents = Some ?d, writable = True\<rparr>"
  have a1: "[?p \<mapsto> ?f] ?p = Some ?f" by simp
  have a2: "contents ?f = Some ?c" by simp
  have a3: "writable ?f" by simp
  have a4: "\<not> sublist FUSED ?c" by (simp add: fix_eval)
  have a5: "re_search fix_pattern ?P = None" by (simp add: fix_eval)
  have a6: "re_search fix_pattern ?Q = None" by (simp add: fix_eval)
  have a7: "fix_theme_resources_format [?p \<mapsto> ?f] ?p =
         (True,
          [?p \<mapsto> \<lparr>contents = Some (?P @ DIV_CLOSE @ NL @ str ''    '' @ SCRIPT_OPEN @ ?Q),
                    writable = True\<rparr>],
          [Arreglando ?p, FormatoCorregido])"
    by (simp add: fix_eval)
  have b1: "read_text [?p \<mapsto> ?g] ?p = Some ?d" by (simp add: read_text_def)
  have b2: "\<not> sublist (DIV_CLOSE @ NL @ SCRIPT_OPEN) ?d" by (simp add: fix_eval)
  have b3: "\<not> sublist (DIV_CLOSE @ CRNL @ SCRIPT_OPEN) ?d" by (simp add: fix_eval)
  note t = fix_theme_resources_format_adjacency [of "[?p \<mapsto> ?f]" ?p ?f ?c ?P ?Q]
  note u = fix_theme_resources_format_adjacency [of "[?p \<mapsto> ?g]" ?p ?g ?d]
  have t1: "[?p \<mapsto> ?f] ?p = Some ?f \<and> contents ?f = Some ?c \<and> writable ?f \<and> ?c = ?c"
    by simp
  have u1: "read_text [?p \<mapsto> ?g] ?p = Some ?d \<and>
      \<not> sublist (DIV_CLOSE @ NL @ SCRIPT_OPEN) ?d \<and>
      \<not> sublist (DIV_CLOSE @ CRNL @ SCRIPT_OPEN) ?d"
    by (intro conjI b1 b2 b3)
  show ?thesis
    unfolding Let_def
    by (intro conjI a1 a2 a3 a4 a5 a6 a7 b1 b2 b3 mp [OF conjunct1 [OF t] t1]
        mp [OF conjunct2 [OF u] u1])
qed

text \<open>
  C8. A file whose text does not hold \<^verbatim>\<open>cdn.tailwindcss.com\<close>, letter for letter, is not in
  the list that \<open>find_html_files_with_tailwind\<close> returns, and a run of \<open>main\<close> leaves it as
  it was.
\<close>

theorem no_cdn_reference_untouched:
  assumes "read_text fs p = Some content" "\<not> sublist (str ''cdn.tailwindcss.com'') content"
  shows "p \<notin> set (fst (find_html_files_with_tailwind os_walk join fs base_path)) \<and>
         fst (snd (main os_walk join fs)) p = fs p"
proof -
  have n: "p \<notin> set (fst (find_html_files_with_tailwind os_walk join fs b))" for b
    using candidates_have_cdn [of p os_walk join fs b] assms by auto
  obtain c fs' out where u: "update_all fs
      (fst (find_html_files_with_tailwind os_walk join fs PROJECT_PATH)) (0, 0, 0) = (c, fs', out)"
    using prod_cases3 by blast
  have "fs' p = fs p" using update_all_keeps [OF _ u] n by blast
  then have "fst (snd (main os_walk join fs)) p = fs p"
    unfolding main_unfold using u by simp
  then show ?thesis using n by simp
qed

text \<open>
  C8 on a file that holds the reference in capitals only.
\<close>

theorem no_cdn_reference_untouched_witness:
  "(let p = str ''t/a.html'';
        content = str ''<link href=CDN.tailwindcss.com></script></body>'';
        fs = [p \<mapsto> \<lparr>contents = Some content, writable = True\<rparr>];
        os_walk = walk_const [(str ''t'', [], [str ''a.html''])]
    in read_text fs p = Some content \<and> \<not> sublist (str ''cdn.tailwindcss.com'') content \<and>
       p \<notin> set (fst (find_html_files_with_tailwind os_walk join_slash fs PROJECT_PATH)) \<and>
       fst (snd (main os_walk join_slash fs)) p = fs p)"
proof -
  let ?p = "str ''t/a.html''"
  let ?c = "str ''<link href=CDN.tailwindcss.com></script></body>''"
  let ?fs = "[?p \<mapsto> \<lparr>contents = Some ?c, writable = True\<rparr>]"
  have h1: "read_text ?fs ?p = Some ?c" by (simp add: read_text_def)
  have h2: "\<not> sublist (str ''cdn.tailwindcss.com'') ?c" by (simp add: inj_eval)
  show ?thesis
    unfolding Let_def
    using no_cdn_reference_untouched [of ?fs ?p ?c "walk_const [(str ''t'', [], [str ''a.html''])]"
        join_slash PROJECT_PATH, OF h1 h2]
    by (intro conjI h1 h2) simp_all
qed

text \<open>
  C9, amended. When the text of the file does not hold \<^verbatim>\<open><scripthemeResources}"></div>\<close>
  and the first application did not end in the exception handler, the file it leaves holds
  the malformed adjacency in neither form, and a second application reports OK, returns
  \<open>False\<close> and leaves the file system as it was.
\<close>

theorem fix_theme_resources_format_idempotent:
  assumes "read_text fs p = Some content" "\<not> sublist FUSED content"
    "fix_theme_resources_format fs p = (fixed, fs1, out)" "ErrorMsg \<notin> set out"
  shows "\<exists>content1. read_text fs1 p = Some content1 \<and>
     \<not> sublist (DIV_CLOSE @ NL @ SCRIPT_OPEN) content1 \<and>
     \<not> sublist (DIV_CLOSE @ CRNL @ SCRIPT_OPEN) content1 \<and>
     fix_theme_resources_format fs1 p = (False, fs1, [FormatoOK p])"
proof (cases "\<not> sublist (DIV_CLOSE @ NL @ SCRIPT_OPEN) content \<and>
              \<not> sublist (DIV_CLOSE @ CRNL @ SCRIPT_OPEN) content")
  case True
  then have "fix_theme_resources_format fs p = (False, fs, [FormatoOK p])"
    using assms(1) by (simp add: fix_theme_resources_format_def)
  then have "fs1 = fs" using assms(3) by simp
  then show ?thesis using True assms(1) by (simp add: fix_theme_resources_format_def)
next
  case False
  obtain f where f: "fs p = Some f" "contents f = Some content"
    using assms(1) read_text_Some by blast
  have w: "writable f"
  proof (rule ccontr)
    assume "\<not> writable f"
    then have "write_text fs p (re_sub_fix content) = None" using f by (simp add: write_text_def)
    then have "out = [Arreglando p, ErrorMsg]"
      using assms(1,3) False by (auto simp: fix_theme_resources_format_def)
    then show False using assms(4) by simp
  qed
  let ?fs = "fs(p \<mapsto> f\<lparr>contents := Some (re_sub_fix content)\<rparr>)"
  have "write_text fs p (re_sub_fix content) = Some ?fs"
    using f w by (simp add: write_text_existing)
  then have "fix_theme_resources_format fs p = (True, ?fs, [Arreglando p, FormatoCorregido])"
    using assms(1) False by (auto simp: fix_theme_resources_format_def)
  then have fs1: "fs1 = ?fs" using assms(3) by simp
  have r: "read_text fs1 p = Some (re_sub_fix content)" unfolding fs1 by (rule read_text_upd)
  have n: "\<not> sublist (DIV_CLOSE @ NL @ SCRIPT_OPEN) (re_sub_fix content)"
    "\<not> sublist (DIV_CLOSE @ CRNL @ SCRIPT_OPEN) (re_sub_fix content)"
    using re_sub_fix_no_adjacency [OF assms(2)] by simp_all
  then have "fix_theme_resources_format fs1 p = (False, fs1, [FormatoOK p])"
    using r by (simp add: fix_theme_resources_format_def)
  then show ?thesis using r n by simp
qed

text \<open>
  C9 on a file that the first application rewrites.
\<close>

theorem fix_theme_resources_format_idempotent_witness:
  "(let p = str ''a.html'';
        content = str ''<head>'' @ DIV_CLOSE @ NL @ SCRIPT_OPEN @ str ''></script></head>'';
        fs = [p \<mapsto> \<lparr>contents = Some content, writable = True\<rparr>];
        fs1 = [p \<mapsto> \<lparr>contents = Some (str ''<head>'' @ FIX_REPL @ str ''></script></head>''),
                     writable = True\<rparr>]
    in read_text fs p = Some content \<and> \<not> sublist FUSED content \<and>
       fix_theme_resources_format fs p = (True, fs1, [Arreglando p, FormatoCorregido]) \<and>
       ErrorMsg \<notin> set [Arreglando p, FormatoCorregido] \<and>
       (\<exists>content1. read_text fs1 p = Some content1 \<and>
          \<not> sublist (DIV_CLOSE @ NL @ SCRIPT_OPEN) content1 \<and>
          \<not> sublist (DIV_CLOSE @ CRNL @ SCRIPT_OPEN) content1 \<and>
          fix_theme_resources_format fs1 p = (False, fs1, [FormatoOK p])))"
proof -
  let ?p = "str ''a.html''"
  let ?c = "str ''<head>'' @ DIV_CLOSE @ NL @ SCRIPT_OPEN @ str ''></script></head>''"
  let ?fs = "[?p \<mapsto> \<lparr>contents = Some ?c, writable = True\<rparr>]"
  let ?fs1 = "[?p \<mapsto> \<lparr>contents = Some (str ''<head>'' @ FIX_REPL @ str ''></script></head>''),
                      writable = True\<rparr>]"
  have h1: "read_text ?fs ?p = Some ?c" by (simp add: read_text_def)
  have h2: "\<not> sublist FUSED ?c" by (simp add: fix_eval)
  have h3: "fix_theme_resources_format ?fs ?p = (True, ?fs1, [Arreglando ?p, FormatoCorregido])"
    by (simp add: fix_eval)
  have h4: "ErrorMsg \<notin> set [Arreglando ?p, FormatoCorregido]" by simp
  show ?thesis
    using h1 h2 h3 h4 fix_theme_resources_format_idempotent [OF h1 h2 h3 h4]
    unfolding Let_def by blast
qed

text \<open>
  C9 as stated fails where the \<open>t\<close> that ends an opening \<^verbatim>\<open><script\<close> starts a second
  \<^verbatim>\<open>themeResources}"></div>\<close>: the first application rewrites the first occurrence only,
  the adjacency is still there, and the second application writes the file again and
  returns \<open>True\<close>.
\<close>

theorem fix_theme_resources_format_idempotent_counterexample:
  "fix_theme_resources_format
     [str ''a.html'' \<mapsto>
        \<lparr>contents = Some (DIV_CLOSE @ NL @ str ''<scrip'' @ DIV_CLOSE @ NL @ SCRIPT_OPEN),
         writable = True\<rparr>]
     (str ''a.html'') =
   (True,
    [str ''a.html'' \<mapsto>
       \<lparr>contents = Some (DIV_CLOSE @ str ''\<newline>    <scrip'' @ DIV_CLOSE @ NL @ SCRIPT_OPEN),
        writable = True\<rparr>],
    [Arreglando (str ''a.html''), FormatoCorregido]) \<and>
   fix_theme_resources_format
     [str ''a.html'' \<mapsto>
       \<lparr>contents = Some (DIV_CLOSE @ str ''\<newline>    <scrip'' @ DIV_CLOSE @ NL @ SCRIPT_OPEN),
        writable = True\<rparr>]
     (str ''a.html'') =
   (True,
    [str ''a.html'' \<mapsto>
       \<lparr>contents = Some (DIV_CLOSE @ str ''\<newline>    <scrip'' @ DIV_CLOSE @ NL @ SCRIPT_OPEN),
        writable = True\<rparr>],
    [Arreglando (str ''a.html''), FormatoCorregido]) \<and>
   sublist (DIV_CLOSE @ NL @ SCRIPT_OPEN)
     (DIV_CLOSE @ str ''\<newline>    <scrip'' @ DIV_CLOSE @ NL @ SCRIPT_OPEN)"
  by (simp add: fix_eval)

text \<open>
  C10, amended. When the text of a writable file holds the malformed adjacency and does not
  hold \<^verbatim>\<open><scripthemeResources}"></div>\<close>, the fixer rewrites the file and the new text
  differs from the old one in white space only. Every occurrence of
  \<^verbatim>\<open>themeResources}"></div>\<close>, white space with a newline and \<^verbatim>\<open><script\<close> in the old text is
  rewritten in place to the closing tag, one newline, four spaces and \<^verbatim>\<open><script\<close>, whatever
  its indentation was, and the new text holds no occurrence of another form.
\<close>

theorem fix_theme_resources_format_normalises:
  assumes "fs p = Some f" "contents f = Some content" "writable f"
    "sublist (DIV_CLOSE @ NL @ SCRIPT_OPEN) content \<or>
     sublist (DIV_CLOSE @ CRNL @ SCRIPT_OPEN) content"
    "\<not> sublist FUSED content"
  shows "\<exists>fs' fixed.
     fix_theme_resources_format fs p = (True, fs', [Arreglando p, FormatoCorregido]) \<and>
     read_text fs' p = Some fixed \<and>
     filter (\<lambda>c. \<not> is_space c) fixed = filter (\<lambda>c. \<not> is_space c) content \<and>
     (\<forall>P W Q. content = P @ DIV_CLOSE @ W @ SCRIPT_OPEN @ Q \<and> list_all is_space W \<and> 10 \<in> set W
        \<longrightarrow> fixed = re_sub_fix P @ DIV_CLOSE @ str ''\<newline>    '' @ SCRIPT_OPEN @ re_sub_fix Q) \<and>
     (\<forall>P W Q. fixed = P @ DIV_CLOSE @ W @ SCRIPT_OPEN @ Q \<and> list_all is_space W \<and> 10 \<in> set W
        \<longrightarrow> W = str ''\<newline>    '')"
proof -
  let ?fs = "fs(p \<mapsto> f\<lparr>contents := Some (re_sub_fix content)\<rparr>)"
  have r: "read_text fs p = Some content" using assms(1,2) by (simp add: read_text_def)
  have "write_text fs p (re_sub_fix content) = Some ?fs"
    using assms(1,3) by (simp add: write_text_existing)
  then have 1: "fix_theme_resources_format fs p = (True, ?fs, [Arreglando p, FormatoCorregido])"
    using r assms(4) by (auto simp: fix_theme_resources_format_def)
  have 2: "read_text ?fs p = Some (re_sub_fix content)" by (rule read_text_upd)
  have 3: "filter (\<lambda>c. \<not> is_space c) (re_sub_fix content) = filter (\<lambda>c. \<not> is_space c) content"
    by (rule re_sub_fix_whitespace_only)
  have 4: "\<forall>P W Q. re_sub_fix content = P @ DIV_CLOSE @ W @ SCRIPT_OPEN @ Q \<and>
      list_all is_space W \<and> 10 \<in> set W \<longrightarrow> W = str ''\<newline>    ''"
    using re_sub_fix_normalised [OF assms(5)] by (auto simp: NL4_def)
  have 5: "\<forall>P W Q. content = P @ DIV_CLOSE @ W @ SCRIPT_OPEN @ Q \<and> list_all is_space W \<and>
      10 \<in> set W \<longrightarrow>
      re_sub_fix content = re_sub_fix P @ DIV_CLOSE @ str ''\<newline>    '' @ SCRIPT_OPEN @ re_sub_fix Q"
    using re_sub_fix_in_place assms(5) by (auto simp: FIX_REPL_def)
  show ?thesis
    by (intro exI [of _ ?fs] exI [of _ "re_sub_fix content"] conjI 1 2 3 4 5)
qed

text \<open>
  C10 on a file with an occurrence indented by eight spaces and a malformed one.
\<close>

theorem fix_theme_resources_format_normalises_witness:
  "(let p = str ''a.html'';
        content = DIV_CLOSE @ str ''\<newline>        '' @ SCRIPT_OPEN @ str ''>'' @
                  DIV_CLOSE @ NL @ SCRIPT_OPEN;
        f = \<lparr>contents = Some content, writable = True\<rparr>
    in [p \<mapsto> f] p = Some f \<and> contents f = Some content \<and> writable f \<and>
       (sublist (DIV_CLOSE @ NL @ SCRIPT_OPEN) content \<or>
        sublist (DIV_CLOSE @ CRNL @ SCRIPT_OPEN) content) \<and>
       \<not> sublist FUSED content \<and>
       fix_theme_resources_format [p \<mapsto> f] p =
         (True,
          [p \<mapsto> \<lparr>contents = Some (DIV_CLOSE @ str ''\<newline>    '' @ SCRIPT_OPEN @ str ''>'' @
                                  DIV_CLOSE @ str ''\<newline>    '' @ SCRIPT_OPEN),
                   writable = True\<rparr>],
          [Arreglando p, FormatoCorregido]) \<and>
       (\<exists>fs' fixed.
          fix_theme_resources_format [p \<mapsto> f] p = (True, fs', [Arreglando p, FormatoCorregido]) \<and>
          read_text fs' p = Some fixed \<and>
          filter (\<lambda>c. \<not> is_space c) fixed = filter (\<lambda>c. \<not> is_space c) content \<and>
          (\<forall>P W Q. content = P @ DIV_CLOSE @ W @ SCRIPT_OPEN @ Q \<and> list_all is_space W \<and>
              10 \<in> set W \<longrightarrow>
              fixed = re_sub_fix P @ DIV_CLOSE @ str ''\<newline>    '' @ SCRIPT_OPEN @ re_sub_fix Q) \<and>
          (\<forall>P W Q. fixed = P @ DIV_CLOSE @ W @ SCRIPT_OPEN @ Q \<and> list_all is_space W \<and>
              10 \<in> set W \<longrightarrow> W = str ''\<newline>    '')))"
proof -
  let ?p = "str ''a.html''"
  let ?c = "DIV_CLOSE @ str ''\<newline>        '' @ SCRIPT_OPEN @ str ''>'' @
            DIV_CLOSE @ NL @ SCRIPT_OPEN"
  let ?f = "\<lparr>contents = Some ?c, writable = True\<rparr>"
  have h1: "[?p \<mapsto> ?f] ?p = Some ?f" by simp
  have h2: "contents ?f = Some ?c" by simp
  have h3: "writable ?f" by simp
  have h4: "sublist (DIV_CLOSE @ NL @ SCRIPT_OPEN) ?c \<or> sublist (DIV_CLOSE @ CRNL @ SCRIPT_OPEN) ?c"
    by (simp add: fix_eval)
  have h5: "\<not> sublist FUSED ?c" by (simp add: fix_eval)
  have h6: "fix_theme_resources_format [?p \<mapsto> ?f] ?p =
         (True,
          [?p \<mapsto> \<lparr>contents = Some (DIV_CLOSE @ str ''\<newline>    '' @ SCRIPT_OPEN @ str ''>'' @
                                  DIV_CLOSE @ str ''\<newline>    '' @ SCRIPT_OPEN),
                   writable = True\<rparr>],
          [Arreglando ?p, FormatoCorregido])"
    by (simp add: fix_eval)
  note t = fix_theme_resources_format_normalises [of "[?p \<mapsto> ?f]" ?p ?f ?c, OF h1 h2 h3 h4 h5]
  show ?thesis
    unfolding Let_def by (intro conjI h1 h2 h3 h4 h5 h6 t)
qed

text \<open>
  C10 as stated fails on two occurrences that share a \<open>t\<close>: the second one is left with its
  single newline.
\<close>

theorem fix_theme_resources_format_normalises_counterexample:
  "fix_theme_resources_format
     [str ''a.html'' \<mapsto>
        \<lparr>contents = Some (DIV_CLOSE @ NL @ str ''<scrip'' @ DIV_CLOSE @ NL @ SCRIPT_OPEN),
         writable = True\<rparr>]
     (str ''a.html'') =
   (True,
    [str ''a.html'' \<mapsto>
       \<lparr>contents = Some (DIV_CLOSE @ str ''\<newline>    <scrip'' @ DIV_CLOSE @ NL @ SCRIPT_OPEN),
        writable = True\<rparr>],
    [Arreglando (str ''a.html''), FormatoCorregido]) \<and>
   sublist (DIV_CLOSE @ NL @ SCRIPT_OPEN)
     (DIV_CLOSE @ str ''\<newline>    <scrip'' @ DIV_CLOSE @ NL @ SCRIPT_OPEN) \<and>
   NL \<noteq> str ''\<newline>    ''"
  by (simp add: fix_eval)

end
